theory Spec2Isabelle
  imports Complex_Main "HOL-Library.Word" "HOL-Library.Sublist" "HOL-Library.Multiset"
begin

unbundle bit_operations_syntax

section \<open>Conventions of the embedding\<close>

text \<open>
  The program is \<^verbatim>\<open>src/main.c\<close>, a terrain generator. Its types are modelled as follows.
  \<^item> \<^verbatim>\<open>UINT\<close>, \<^verbatim>\<open>DWORD\<close> values whose wrap-around matters (the size test of
    \<^verbatim>\<open>MakeHeightmap\<close>, the allocation sizes, the counts \<^verbatim>\<open>ndot\<close> and \<^verbatim>\<open>npol\<close>,
    colours) are \<open>32 word\<close>; loop counters and array indices are \<open>nat\<close>, and \<open>int\<close>
    where the program can make an index negative.
  \<^item> \<^verbatim>\<open>FLOAT\<close> is modelled by \<open>real\<close>: rounding is not modelled. A division whose
    divisor is zero is a fault of the model (\<open>DivByZero\<close>): the C code goes on with an
    IEEE infinity or NaN there, which \<open>real\<close> does not have.
  \<^item> An array is a list. Every statement that reads or writes an array first checks
    that each index it uses lies inside the array; when one does not, the C code has
    undefined behaviour and the model stops with the fault \<open>OutOfBounds\<close>.
  \<^item> A pointer result is an \<open>option\<close>: \<open>None\<close> is \<^verbatim>\<open>NULL\<close>.
  \<^item> \<^verbatim>\<open>rand()\<close> is a library function: the sequence of its results after
    \<^verbatim>\<open>srand\<close> is a parameter \<open>rnd :: nat \<Rightarrow> nat\<close>, and the state of the generator is
    the number of calls made so far.
\<close>

datatype fault = OutOfBounds | NullDeref | DivByZero

text \<open>\<open>inb xs is\<close>: every index of \<open>is\<close> lies inside the array \<open>xs\<close>.\<close>

definition inb :: "'a list \<Rightarrow> nat list \<Rightarrow> bool" where
  "inb xs js = list_all (\<lambda>i. i < length xs) js"

subsection \<open>Loops\<close>

text \<open>
  \<^verbatim>\<open>for (i = a; i < n; i += inc) body\<close>. The increments of the program are \<open>1\<close>,
  \<open>step\<close> and \<open>step << 1\<close> inside a loop that runs only while \<open>step\<close> is not zero, so
  the test \<open>0 < inc\<close> never decides; it makes the recursion well founded.
\<close>

function for_stride :: "nat \<Rightarrow> nat \<Rightarrow> nat \<Rightarrow> (nat \<Rightarrow> 's \<Rightarrow> fault + 's) \<Rightarrow> 's \<Rightarrow> fault + 's" where
  "for_stride i n inc body s =
     (if i < n \<and> 0 < inc then
        (case body i s of
           Inl e \<Rightarrow> Inl e
         | Inr s' \<Rightarrow> for_stride (i + inc) n inc body s')
      else Inr s)"
  by pat_completeness auto
termination
  by (relation "measure (\<lambda>(i, n, inc, body, s). n - i)") auto

declare for_stride.simps [simp del]

text \<open>\<^verbatim>\<open>for (z = r; z > 0; z--) body\<close>.\<close>

fun for_down :: "nat \<Rightarrow> (nat \<Rightarrow> 's \<Rightarrow> fault + 's) \<Rightarrow> 's \<Rightarrow> fault + 's" where
  "for_down 0 body s = Inr s"
| "for_down (Suc z) body s =
     (case body (Suc z) s of
        Inl e \<Rightarrow> Inl e
      | Inr s' \<Rightarrow> for_down z body s')"

section \<open>MakeHeightmap: the diamond-square heightmap\<close>

text \<open>
  \<^verbatim>\<open>#define frand(f) (2.0 * ((FLOAT)(rand() & 0x7FFF) / (FLOAT)0x7FFF) * (FLOAT)(f) - (FLOAT)(f))\<close>,
  with \<open>r\<close> the result of the call of \<^verbatim>\<open>rand()\<close>.
\<close>

definition frand :: "real \<Rightarrow> nat \<Rightarrow> real" where
  "frand f r = 2 * (real (r AND 0x7FFF) / real 0x7FFF) * f - f"

text \<open>The heightmap under construction and the number of calls of \<^verbatim>\<open>rand()\<close> so far.\<close>

type_synonym hm_state = "real list \<times> nat"

text \<open>The body of the diamond pass (lines 432-436) at the point \<open>(x, y)\<close>.\<close>

definition diamond_cell ::
  "(nat \<Rightarrow> nat) \<Rightarrow> nat \<Rightarrow> nat \<Rightarrow> real \<Rightarrow> nat \<Rightarrow> nat \<Rightarrow> hm_state \<Rightarrow> fault + hm_state" where
  "diamond_cell rnd sinc step hdef y x st =
     (let farr = fst st; cnt = snd st in
      if step \<le> x \<and> step \<le> y \<and>
         inb farr [x + y * sinc, (x + step) + (y + step) * sinc] then
        Inr (farr[x + y * sinc :=
                    hdef * frand 0.500 (rnd cnt)
                    + 0.250 * (farr ! ((x - step) + (y - step) * sinc)
                             + farr ! ((x + step) + (y - step) * sinc)
                             + farr ! ((x - step) + (y + step) * sinc)
                             + farr ! ((x + step) + (y + step) * sinc))],
             Suc cnt)
      else Inl OutOfBounds)"

text \<open>
  The body of the square pass (lines 441-448) at the point \<open>(x, y)\<close>. The loop headers
  set \<open>xbgn = xend = x\<close> and \<open>ybgn = yend = y\<close> before every iteration, so the four are
  local to the iteration.
\<close>

definition square_cell ::
  "(nat \<Rightarrow> nat) \<Rightarrow> nat \<Rightarrow> nat \<Rightarrow> nat \<Rightarrow> real \<Rightarrow> nat \<Rightarrow> nat \<Rightarrow> nat \<Rightarrow> nat \<Rightarrow> hm_state
     \<Rightarrow> fault + hm_state" where
  "square_cell rnd sz sinc step hdef y ybgn yend x st =
     (let farr = fst st; cnt = snd st;
          xend = (if x = 0 then sz else x);
          xbgn = (if x \<noteq> 0 \<and> x = sz then 0 else x)
      in
      if step \<le> xend \<and> step \<le> yend \<and>
         inb farr [x + y * sinc, (xend - step) + y * sinc, (xbgn + step) + y * sinc,
                   x + (yend - step) * sinc, x + (ybgn + step) * sinc] \<and>
         (x = 0 \<longrightarrow> inb farr [sz + y * sinc]) \<and>
         (y = 0 \<longrightarrow> inb farr [x + sz * sinc]) then
        let farr1 = farr[x + y * sinc :=
                      hdef * frand 0.500 (rnd cnt)
                      + 0.250 * (farr ! ((xend - step) + y * sinc)
                               + farr ! ((xbgn + step) + y * sinc)
                               + farr ! (x + (yend - step) * sinc)
                               + farr ! (x + (ybgn + step) * sinc))];
            farr2 = (if x = 0 then farr1[sz + y * sinc := farr1 ! (0 + y * sinc)] else farr1);
            farr3 = (if y = 0 then farr2[x + sz * sinc := farr2 ! (x + 0 * sinc)] else farr2)
        in Inr (farr3, Suc cnt)
      else Inl OutOfBounds)"

text \<open>The diamond pass (lines 430-436).\<close>

definition diamond_pass ::
  "(nat \<Rightarrow> nat) \<Rightarrow> nat \<Rightarrow> nat \<Rightarrow> nat \<Rightarrow> real \<Rightarrow> hm_state \<Rightarrow> fault + hm_state" where
  "diamond_pass rnd sz sinc step hdef st =
     for_stride step sz (2 * step)
       (\<lambda>y. for_stride step sz (2 * step) (diamond_cell rnd sinc step hdef y)) st"

text \<open>
  The square pass (lines 438-450). \<open>oddc\<close> is \<open>0\<close> or \<open>~0\<close> in the program and is only
  tested for being zero: a \<open>bool\<close> here, carried with the state of the outer loop.
\<close>

definition square_row ::
  "(nat \<Rightarrow> nat) \<Rightarrow> nat \<Rightarrow> nat \<Rightarrow> nat \<Rightarrow> real \<Rightarrow> nat \<Rightarrow> bool \<times> hm_state
     \<Rightarrow> fault + bool \<times> hm_state" where
  "square_row rnd sz sinc step hdef y os =
     (let oddc = fst os;
          yend = (if y = 0 then sz else y);
          ybgn = (if y \<noteq> 0 \<and> y = sz then 0 else y)
      in case for_stride (if oddc then 0 else step) sz (2 * step)
                (square_cell rnd sz sinc step hdef y ybgn yend) (snd os) of
           Inl e \<Rightarrow> Inl e
         | Inr st' \<Rightarrow> Inr (\<not> oddc, st'))"

definition square_pass ::
  "(nat \<Rightarrow> nat) \<Rightarrow> nat \<Rightarrow> nat \<Rightarrow> nat \<Rightarrow> real \<Rightarrow> hm_state \<Rightarrow> fault + hm_state" where
  "square_pass rnd sz sinc step hdef st =
     (case for_stride 0 sz step (square_row rnd sz sinc step hdef) (False, st) of
        Inl e \<Rightarrow> Inl e
      | Inr os \<Rightarrow> Inr (snd os))"

text \<open>\<^verbatim>\<open>for (step = size >> 1; step; step >>= 1, hdef *= dmpf)\<close> (line 429).\<close>

function hm_steps ::
  "(nat \<Rightarrow> nat) \<Rightarrow> nat \<Rightarrow> nat \<Rightarrow> real \<Rightarrow> nat \<Rightarrow> real \<Rightarrow> hm_state \<Rightarrow> fault + hm_state" where
  "hm_steps rnd sz sinc dmpf step hdef st =
     (if step \<noteq> 0 then
        (case diamond_pass rnd sz sinc step hdef st of
           Inl e \<Rightarrow> Inl e
         | Inr st1 \<Rightarrow>
             (case square_pass rnd sz sinc step hdef st1 of
                Inl e \<Rightarrow> Inl e
              | Inr st2 \<Rightarrow> hm_steps rnd sz sinc dmpf (step div 2) (hdef * dmpf) st2))
      else Inr st)"
  by pat_completeness auto
termination
  by (relation "measure (\<lambda>(rnd, sz, sinc, dmpf, step, hdef, st). step)") auto

declare hm_steps.simps [simp del]

text \<open>
  \<^verbatim>\<open>FLOAT *MakeHeightmap(UINT size, FLOAT dmpf)\<close> (lines 422-453). \<open>cnt\<close> is the number
  of calls of \<^verbatim>\<open>rand()\<close> made before; the result holds the number made after.
  \<open>sinc * sinc\<close> is a product of 32-bit integers.
\<close>

definition MakeHeightmap ::
  "32 word \<Rightarrow> real \<Rightarrow> (nat \<Rightarrow> nat) \<Rightarrow> nat \<Rightarrow> fault + hm_state option" where
  "MakeHeightmap sz dmpf rnd cnt =
     (if sz AND (sz - 1) \<noteq> 0 \<or> sz = 1 then Inr None
      else
        let sinc = sz + 1;
            farr = replicate (unat (sinc * sinc)) (0 :: real);
            dmpf' = 2 powr (- \<bar>dmpf\<bar>)
        in case hm_steps rnd (unat sz) (unat sinc) dmpf' (unat (drop_bit 1 sz)) dmpf' (farr, cnt) of
             Inl e \<Rightarrow> Inl e
           | Inr st \<Rightarrow> Inr (Some st))"

section \<open>BlurHeightmap: the Gaussian blur\<close>

text \<open>\<^verbatim>\<open>#define tr(f) ((LONG)(f))\<close>: the conversion truncates toward zero.\<close>

definition tr :: "real \<Rightarrow> int" where
  "tr f = (if 0 \<le> f then \<lfloor>f\<rfloor> else \<lceil>f\<rceil>)"

text \<open>
  The kernel (lines 472-480); \<open>fsig\<close> is already \<open>fabs(fsig) * 3.0\<close>. The array
  \<open>blur\<close> has \<open>tr(fsig) + 1\<close> cells, zeroed by \<^verbatim>\<open>calloc\<close>.
  \<^verbatim>\<open>blur[0] += blur[x] = exp(-x * x * fsum)\<close> stores the exponential in \<open>blur[x]\<close> and
  adds the stored value to \<open>blur[0]\<close>.
\<close>

definition blur_kernel :: "real \<Rightarrow> fault + real list" where
  "blur_kernel fsig =
     (if 2.0 * fsig * fsig = 0 then Inl DivByZero
      else
        let fsum = 9.0 / (2.0 * fsig * fsig);
            r = nat (tr fsig);
            blur = replicate (r + 1) (0 :: real)
        in case for_down r
                  (\<lambda>x blur.
                     if inb blur [x, 0] then
                       Inr ((blur[x := exp (- real (x * x) * fsum)])
                              [0 := blur ! 0 + exp (- real (x * x) * fsum)])
                     else Inl OutOfBounds) blur of
             Inl e \<Rightarrow> Inl e
           | Inr blur1 \<Rightarrow>
               if blur1 ! 0 + 0.5 = 0 then Inl DivByZero
               else
                 for_down r
                   (\<lambda>x blur.
                      if inb blur [x, 0] then Inr (blur[x := blur ! x * blur ! 0])
                      else Inl OutOfBounds)
                   (blur1[0 := 0.5 / (blur1 ! 0 + 0.5)]))"

text \<open>
  The inner loop of the row pass (lines 485-487) for the cell \<open>x\<close> of the row that
  starts at \<open>dpos\<close>: the sum over the neighbours in the row, read from \<open>farr\<close>.
  \<open>x - z < 0\<close> is \<open>x < z\<close>; \<open>x - z + size\<close> is not negative only when \<open>z \<le> x + size\<close>.
\<close>

definition blur_row_fsum :: "nat \<Rightarrow> real list \<Rightarrow> real list \<Rightarrow> nat \<Rightarrow> nat \<Rightarrow> nat \<Rightarrow> fault + real" where
  "blur_row_fsum sz blur farr r dpos x =
     for_down r
       (\<lambda>z fsum.
          if (x < z \<longrightarrow> z \<le> x + sz) \<and>
             inb farr [dpos + (if x < z then x + sz - z else x - z),
                       dpos + (if x + z > sz then x + z - sz else x + z)] \<and>
             inb blur [z]
          then Inr (fsum + (farr ! (dpos + (if x < z then x + sz - z else x - z))
                          + farr ! (dpos + (if x + z > sz then x + z - sz else x + z)))
                         * blur ! z)
          else Inl OutOfBounds) 0.0"

text \<open>
  The body of the row pass (lines 485-488). Line 488 is
  \<^verbatim>\<open>ftmp[dpos + x] = ftmp[dpos + x] * blur[0] + fsum\<close>: it reads the cell of \<open>ftmp\<close>
  that it is about to write.
\<close>

definition blur_row_cell ::
  "nat \<Rightarrow> real list \<Rightarrow> real list \<Rightarrow> nat \<Rightarrow> nat \<Rightarrow> nat \<Rightarrow> real list \<Rightarrow> fault + real list" where
  "blur_row_cell sz blur farr r dpos x ftmp =
     (case blur_row_fsum sz blur farr r dpos x of
        Inl e \<Rightarrow> Inl e
      | Inr fsum \<Rightarrow>
          if inb ftmp [dpos + x] \<and> inb blur [0] then
            Inr (ftmp[dpos + x := ftmp ! (dpos + x) * blur ! 0 + fsum])
          else Inl OutOfBounds)"

text \<open>The row pass (lines 483-489); \<open>y <= size\<close> is \<open>y < size + 1\<close>.\<close>

definition blur_row_pass :: "nat \<Rightarrow> real list \<Rightarrow> real list \<Rightarrow> nat \<Rightarrow> real list \<Rightarrow> fault + real list" where
  "blur_row_pass sz blur farr r ftmp =
     for_stride 0 (sz + 1) 1
       (\<lambda>y. for_stride 0 (sz + 1) 1 (blur_row_cell sz blur farr r (y * (sz + 1)))) ftmp"

text \<open>The inner loop of the column pass (lines 492-494), read from \<open>ftmp\<close>.\<close>

definition blur_col_fsum :: "nat \<Rightarrow> real list \<Rightarrow> real list \<Rightarrow> nat \<Rightarrow> nat \<Rightarrow> nat \<Rightarrow> fault + real" where
  "blur_col_fsum sz blur ftmp r x y =
     for_down r
       (\<lambda>z fsum.
          if (y < z \<longrightarrow> z \<le> y + sz) \<and>
             inb ftmp [x + (if y < z then (y + sz - z) * (sz + 1) else (y - z) * (sz + 1)),
                       x + (if y + z > sz then (y + z - sz) * (sz + 1) else (y + z) * (sz + 1))] \<and>
             inb blur [z]
          then Inr (fsum + (ftmp ! (x + (if y < z then (y + sz - z) * (sz + 1)
                                         else (y - z) * (sz + 1)))
                          + ftmp ! (x + (if y + z > sz then (y + z - sz) * (sz + 1)
                                         else (y + z) * (sz + 1))))
                         * blur ! z)
          else Inl OutOfBounds) 0.0"

text \<open>The body of the column pass (lines 492-495): it reads and writes \<open>farr\<close>.\<close>

definition blur_col_cell ::
  "nat \<Rightarrow> real list \<Rightarrow> real list \<Rightarrow> nat \<Rightarrow> nat \<Rightarrow> nat \<Rightarrow> real list \<Rightarrow> fault + real list" where
  "blur_col_cell sz blur ftmp r x y farr =
     (case blur_col_fsum sz blur ftmp r x y of
        Inl e \<Rightarrow> Inl e
      | Inr fsum \<Rightarrow>
          if inb farr [x + y * (sz + 1)] \<and> inb blur [0] then
            Inr (farr[x + y * (sz + 1) := farr ! (x + y * (sz + 1)) * blur ! 0 + fsum])
          else Inl OutOfBounds)"

text \<open>The column pass (lines 490-496).\<close>

definition blur_col_pass :: "nat \<Rightarrow> real list \<Rightarrow> real list \<Rightarrow> nat \<Rightarrow> real list \<Rightarrow> fault + real list" where
  "blur_col_pass sz blur ftmp r farr =
     for_stride 0 (sz + 1) 1
       (\<lambda>x. for_stride 0 (sz + 1) 1 (blur_col_cell sz blur ftmp r x)) farr"

text \<open>
  \<^verbatim>\<open>void BlurHeightmap(FLOAT *farr, UINT size, FLOAT fsig)\<close> (lines 465-499); the result
  is the array \<open>farr\<close> after the call. \<open>ftmp\<close> comes from \<^verbatim>\<open>malloc\<close> and is not
  initialised: \<open>junk i\<close> is what the memory of its cell \<open>i\<close> holds. The size of the
  allocation is a product of 32-bit integers.
\<close>

definition BlurHeightmap :: "real list \<Rightarrow> nat \<Rightarrow> real \<Rightarrow> (nat \<Rightarrow> real) \<Rightarrow> fault + real list" where
  "BlurHeightmap farr sz fsig0 junk =
     (let fsig = \<bar>fsig0\<bar> * 3.0 in
      if fsig = 0 then Inr farr
      else if sz \<le> 0 \<or> fsig \<ge> real sz then Inr farr
      else
        case blur_kernel fsig of
          Inl e \<Rightarrow> Inl e
        | Inr blur \<Rightarrow>
            let ftmp = map junk [0 ..< ((sz + 1) * (sz + 1) * 4) mod 2 ^ 32 div 4] in
            case blur_row_pass sz blur farr (nat (tr fsig)) ftmp of
              Inl e \<Rightarrow> Inl e
            | Inr ftmp' \<Rightarrow> blur_col_pass sz blur ftmp' (nat (tr fsig)) farr)"

section \<open>The mesh\<close>

text \<open>
  The fields of the structures carry a prefix here, since a field name is a constant
  of the theory and the functions use the same names for their variables:
  \<open>v_\<close> for \<^verbatim>\<open>FVEC\<close>, \<open>h_\<close> for \<^verbatim>\<open>FHEI\<close>, \<open>m_\<close> for the \<^verbatim>\<open>FVBO\<close> of a landscape and
  \<open>p_\<close> for the \<^verbatim>\<open>FVBO\<close> of the objects that hangs on its \<^verbatim>\<open>next\<close>.

  \<^verbatim>\<open>FCLR\<close> is a union of four bytes \<open>R, G, B, A\<close> and a \<^verbatim>\<open>DWORD RGBA\<close>; on the
  little-endian machine of the program \<open>R\<close> is the lowest byte of \<open>RGBA\<close> and \<open>A\<close> the
  highest. A byte read in an expression is promoted to \<^verbatim>\<open>int\<close>: a number here; a
  number stored in a byte is taken modulo 256.
\<close>

type_synonym FCLR = "32 word"

definition clr_R :: "FCLR \<Rightarrow> nat" where "clr_R c = unat (c AND 0xFF)"
definition clr_G :: "FCLR \<Rightarrow> nat" where "clr_G c = unat (drop_bit 8 c AND 0xFF)"
definition clr_B :: "FCLR \<Rightarrow> nat" where "clr_B c = unat (drop_bit 16 c AND 0xFF)"
definition clr_A :: "FCLR \<Rightarrow> nat" where "clr_A c = unat (drop_bit 24 c AND 0xFF)"

definition set_R :: "FCLR \<Rightarrow> nat \<Rightarrow> FCLR" where
  "set_R c v = (c AND NOT 0xFF) OR word_of_nat (v mod 256)"
definition set_G :: "FCLR \<Rightarrow> nat \<Rightarrow> FCLR" where
  "set_G c v = (c AND NOT 0xFF00) OR push_bit 8 (word_of_nat (v mod 256))"
definition set_B :: "FCLR \<Rightarrow> nat \<Rightarrow> FCLR" where
  "set_B c v = (c AND NOT 0xFF0000) OR push_bit 16 (word_of_nat (v mod 256))"
definition set_A :: "FCLR \<Rightarrow> nat \<Rightarrow> FCLR" where
  "set_A c v = (c AND NOT 0xFF000000) OR push_bit 24 (word_of_nat (v mod 256))"

text \<open>\<^verbatim>\<open>FTRI\<close>: the twelve indices \<open>a, ..., l\<close> of the four triangles of a cell.\<close>

datatype FTRI = FTRI nat nat nat nat nat nat nat nat nat nat nat nat

record FVEC =
  v_x :: real
  v_y :: real
  v_z :: real

record FHEI =
  h_fhei :: real
  h_fclr :: FCLR

text \<open>
  The mesh of the objects. Its geometry (lines 750-816) is not modelled: \<open>p_fobj\<close>, the
  array \<open>fobj\<close> of the chosen vertices with their number in cell 0, stands for it.
\<close>

record PVBO =
  p_flgs :: "32 word"
  p_ndot :: "32 word"
  p_npol :: "32 word"
  p_grid :: real
  p_fobj :: "nat list"

text \<open>
  The mesh of the landscape. The normals, the texture coordinates, the texture and
  the buffers of OpenGL are not modelled: no claim is about them.
\<close>

record FVBO =
  m_next :: "PVBO option"
  m_flgs :: "32 word"
  m_ndim :: "32 word"
  m_ndot :: "32 word"
  m_npol :: "32 word"
  m_seed :: "32 word"
  m_grid :: real
  m_wlvl :: real
  m_indx :: "FTRI list"
  m_vect :: "FVEC list"
  m_clrs :: "FCLR list"

definition USE_ARBV :: "32 word" where "USE_ARBV = push_bit 0 1"

text \<open>Sequencing of steps that can fault.\<close>

definition bindf :: "fault + 'a \<Rightarrow> ('a \<Rightarrow> fault + 'b) \<Rightarrow> fault + 'b" where
  "bindf m f = (case m of Inl e \<Rightarrow> Inl e | Inr v \<Rightarrow> f v)"

text \<open>
  \<^verbatim>\<open>FVBO *MakeVBO(UINT ndot)\<close> (lines 511-535): \<^verbatim>\<open>NULL\<close> when \<open>ndot\<close> is zero, else a
  zeroed mesh with \<open>ndot\<close> vertices and colours and \<open>1 + (ndot >> 1)\<close> index cells.
\<close>

definition MakeVBO :: "32 word \<Rightarrow> FVBO option" where
  "MakeVBO ndot =
     (if ndot = 0 then None
      else Some \<lparr>m_next = None, m_flgs = 0, m_ndim = 0, m_ndot = ndot, m_npol = 0, m_seed = 0,
                 m_grid = 0, m_wlvl = 0,
                 m_indx = replicate (1 + unat (drop_bit 1 ndot)) (FTRI 0 0 0 0 0 0 0 0 0 0 0 0),
                 m_vect = replicate (unat ndot) \<lparr>v_x = 0, v_y = 0, v_z = 0\<rparr>,
                 m_clrs = replicate (unat ndot) 0\<rparr>)"

text \<open>
  \<^verbatim>\<open>MakeFacetTex(rndc)\<close> (lines 372-408) matters here only by the calls of
  \<^verbatim>\<open>rand()\<close> it makes: one per texel of the 256 x 256 texture, none when it fails.
\<close>

definition MakeFacetTex_calls :: "int \<Rightarrow> nat" where
  "MakeFacetTex_calls rndc = (if \<bar>rndc\<bar> mod 257 = 0 then 0 else 256 * 256)"

subsection \<open>LandscapeVBO, step by step\<close>

text \<open>The twelve indices of the cell whose lower left corner is the vertex \<open>dpos\<close> (lines 880-894).\<close>

definition index_cell :: "nat \<Rightarrow> nat \<Rightarrow> FTRI" where
  "index_cell ndim dpos =
     FTRI (dpos + (ndim + 1)) dpos (dpos + 1)
          (dpos + (ndim + 1)) (dpos + 1) (dpos + (ndim + ndim + 2) + 1)
          (dpos + (ndim + 1)) (dpos + (ndim + ndim + 2) + 1) (dpos + (ndim + ndim + 2))
          (dpos + (ndim + 1)) (dpos + (ndim + ndim + 2)) dpos"

text \<open>
  The index generation (lines 877-899). The state of the outer loop is the array and
  \<open>i\<close>; the inner loop also carries \<open>dpos\<close>.
\<close>

definition landscape_indices :: "nat \<Rightarrow> FTRI list \<Rightarrow> fault + FTRI list \<times> nat" where
  "landscape_indices ndim indx =
     for_stride 0 ndim 1
       (\<lambda>y s. bindf
          (for_stride 0 ndim 1
             (\<lambda>x t. case t of (indx, i, dpos) \<Rightarrow>
                if inb indx [i] then Inr (indx[i := index_cell ndim dpos], i + 1, dpos + 1)
                else Inl OutOfBounds)
             (fst s, snd s, push_bit 1 (y * (ndim + 1))))
          (\<lambda>t. case t of (indx, i, dpos) \<Rightarrow> Inr (indx, i)))
       (indx, 0)"

text \<open>
  Lines 901-902: \<^verbatim>\<open>srand(seed); BlurHeightmap(farr = MakeHeightmap(ndim, 1.0), ndim, 1.5)\<close>.
  \<open>rnd\<close> is the sequence of the results of \<^verbatim>\<open>rand()\<close> after \<^verbatim>\<open>srand(seed)\<close>. A
  \<^verbatim>\<open>NULL\<close> heightmap is dereferenced at line 903 at the latest.
\<close>

definition landscape_heightmap :: "32 word \<Rightarrow> (nat \<Rightarrow> nat) \<Rightarrow> (nat \<Rightarrow> real) \<Rightarrow> fault + hm_state" where
  "landscape_heightmap ndim rnd junk =
     bindf (MakeHeightmap ndim 1.0 rnd 0)
       (\<lambda>r. case r of
          None \<Rightarrow> Inl NullDeref
        | Some (farr, cnt) \<Rightarrow>
            bindf (BlurHeightmap farr (unat ndim) 1.5 junk) (\<lambda>farr'. Inr (farr', cnt)))"

text \<open>
  Lines 903-907: the least and the greatest height. The loop starts at
  \<open>x = (ndim + 1) * (ndim + 1)\<close>, the number of cells of \<open>farr\<close>, so its first iteration
  reads the cell after the last one: \<open>past\<close> is what the memory holds there, and any
  index further out is a fault. \<open>x >= 0\<close> is \<open>z > 0\<close> for \<open>z = x + 1\<close>. \<^verbatim>\<open>min(a, b)\<close> is
  the macro \<open>a < b ? a : b\<close>, \<^verbatim>\<open>max(a, b)\<close> is \<open>a > b ? a : b\<close>.
\<close>

definition read_past :: "real list \<Rightarrow> real \<Rightarrow> nat \<Rightarrow> fault + real" where
  "read_past farr past x =
     (if x < length farr then Inr (farr ! x)
      else if x = length farr then Inr past
      else Inl OutOfBounds)"

definition height_range :: "real list \<Rightarrow> real \<Rightarrow> nat \<Rightarrow> fault + real \<times> real" where
  "height_range farr past ndim =
     (if inb farr [0] then
        for_down ((ndim + 1) * (ndim + 1) + 1)
          (\<lambda>z s. bindf (read_past farr past (z - 1))
             (\<lambda>v. Inr (if fst s < v then fst s else v, if snd s > v then snd s else v)))
          (farr ! 0, farr ! 0)
      else Inl OutOfBounds)"

text \<open>
  Lines 909-918: the corner vertices. \<open>fmax\<close> is already \<open>fhei / (fmax - fmin)\<close>. The
  state of the inner loop is the array and \<open>dpos\<close>.
\<close>

definition corner_heights ::
  "nat \<Rightarrow> real \<Rightarrow> real \<Rightarrow> real \<Rightarrow> real \<Rightarrow> real \<Rightarrow> real list \<Rightarrow> FVEC list \<Rightarrow> fault + FVEC list" where
  "corner_heights ndim grid fhei wlvl fmin fmax farr vect =
     for_stride 0 (ndim + 1) 1
       (\<lambda>y vect. bindf
          (for_stride 0 (ndim + 1) 1
             (\<lambda>x t. case t of (vect, dpos) \<Rightarrow>
                if inb vect [dpos] \<and> inb farr [x + y * (ndim + 1)] then
                  let z = (farr ! (x + y * (ndim + 1)) - fmin) * fmax - 0.5 * fhei
                  in Inr (vect[dpos := \<lparr>v_x = grid * real x - 0.5 * grid * real ndim,
                                         v_y = grid * real y - 0.5 * grid * real ndim,
                                         v_z = (if z < wlvl then wlvl else z)\<rparr>],
                          dpos + 1)
                else Inl OutOfBounds)
             (vect, push_bit 1 (y * (ndim + 1))))
          (\<lambda>t. Inr (fst t)))
       vect"

text \<open>Lines 921-932: the centre vertex of every cell, the mean of its four corners.\<close>

definition center_heights :: "nat \<Rightarrow> real \<Rightarrow> FVEC list \<Rightarrow> fault + FVEC list" where
  "center_heights ndim grid vect =
     for_stride 0 ndim 1
       (\<lambda>y vect. bindf
          (for_stride 0 ndim 1
             (\<lambda>x t. case t of (vect, dpos) \<Rightarrow>
                if ndim + 1 \<le> dpos \<and> inb vect [dpos, dpos + ndim + 2] then
                  Inr (vect[dpos := \<lparr>v_x = grid * (real x + 0.5) - 0.5 * grid * real ndim,
                                      v_y = grid * (real y + 0.5) - 0.5 * grid * real ndim,
                                      v_z = 0.25 * (v_z (vect ! (dpos - ndim - 1))
                                                  + v_z (vect ! (dpos - ndim - 0))
                                                  + v_z (vect ! (dpos + ndim + 1))
                                                  + v_z (vect ! (dpos + ndim + 2)))\<rparr>],
                       dpos + 1)
                else Inl OutOfBounds)
             (vect, (ndim + 1) + push_bit 1 (y * (ndim + 1))))
          (\<lambda>t. Inr (fst t)))
       vect"

text \<open>
  Lines 934-935: \<^verbatim>\<open>for (fmax = i = 0; lscp[i].fhei > 0.0; i++) fmax += lscp[i].fhei\<close>.
  The loop ends at the first band whose height is not positive; a table without one is
  read past its end.
\<close>

function band_sum :: "FHEI list \<Rightarrow> nat \<Rightarrow> real \<Rightarrow> fault + real \<times> nat" where
  "band_sum lscp i fmax =
     (if inb lscp [i] then
        (if h_fhei (lscp ! i) > 0.0 then band_sum lscp (i + 1) (fmax + h_fhei (lscp ! i))
         else Inr (fmax, i))
      else Inl OutOfBounds)"
  by pat_completeness auto
termination
  by (relation "measure (\<lambda>(lscp, i, fmax). length lscp - i)") (auto simp: inb_def)

declare band_sum.simps [simp del]

text \<open>
  Lines 944-946: the band of a vertex.
  \<^verbatim>\<open>while (lscp[i].fhei > 0.0 && (fmin -= lscp[i].fhei) > 0.0) i++;\<close> and then
  \<^verbatim>\<open>if (lscp[i].fhei <= 0.0) i--;\<close>. The result is the index of the band; \<open>i--\<close> at
  \<open>i = 0\<close> leaves the table.
\<close>

function band_walk :: "FHEI list \<Rightarrow> nat \<Rightarrow> real \<Rightarrow> fault + nat" where
  "band_walk lscp i fmin =
     (if inb lscp [i] then
        (if h_fhei (lscp ! i) > 0.0 \<and> fmin - h_fhei (lscp ! i) > 0.0
         then band_walk lscp (i + 1) (fmin - h_fhei (lscp ! i))
         else Inr i)
      else Inl OutOfBounds)"
  by pat_completeness auto
termination
  by (relation "measure (\<lambda>(lscp, i, fmin). length lscp - i)") (auto simp: inb_def)

declare band_walk.simps [simp del]

definition band_of :: "FHEI list \<Rightarrow> real \<Rightarrow> fault + nat" where
  "band_of lscp fmin =
     bindf (band_walk lscp 0 fmin)
       (\<lambda>i. if h_fhei (lscp ! i) \<le> 0.0 then (if i = 0 then Inl OutOfBounds else Inr (i - 1))
             else Inr i)"

text \<open>\<open>inbi xs i\<close>: the signed index \<open>i\<close> lies inside the array \<open>xs\<close>.\<close>

definition inbi :: "'a list \<Rightarrow> int \<Rightarrow> bool" where
  "inbi xs i \<longleftrightarrow> 0 \<le> i \<and> nat i < length xs"

text \<open>
  The body of lines 943-959: the colour of the corner vertex \<open>(x, y)\<close>. \<open>fmax\<close> is the
  sum of the bands, \<open>wclr\<close> and \<open>wtrn\<close> are the colour and the transparency of the
  water. \<open>wtrn * 0x1000000\<close> is a product of 32-bit integers.

  \<open>xl\<close>, \<open>xh\<close>, \<open>yl\<close> and \<open>yh\<close> are \<^verbatim>\<open>LONG\<close>, and \<open>ndim - 1\<close> is computed in \<^verbatim>\<open>UINT\<close>: at
  \<open>ndim = 0\<close> it wraps to \<open>0xFFFFFFFF\<close>, which is \<open>-1\<close> as a \<^verbatim>\<open>LONG\<close>. The four are \<open>int\<close>
  here, so that \<open>int ndim - 1\<close> is that \<open>-1\<close>, and a negative index is out of bounds.
  The four comparisons of lines 954-957 are joined by \<^verbatim>\<open>&&\<close>: a vertex is read only when
  the ones before it are at the level of the water.
\<close>

definition corner_color ::
  "nat \<Rightarrow> real \<Rightarrow> real \<Rightarrow> FHEI list \<Rightarrow> real \<Rightarrow> FCLR \<Rightarrow> nat \<Rightarrow> FVEC list \<Rightarrow> nat \<Rightarrow> nat \<Rightarrow> nat
     \<Rightarrow> FCLR list \<Rightarrow> fault + FCLR list" where
  "corner_color ndim fhei wlvl lscp fmax wclr wtrn vect y dpos x clrs =
     (if \<not> inb vect [dpos + x] \<or> \<not> inb clrs [dpos + x] then Inl OutOfBounds
      else if 0.5 * fhei - wlvl = 0 then Inl DivByZero
      else
        bindf (band_of lscp (fmax * (v_z (vect ! (dpos + x)) - wlvl) / (0.5 * fhei - wlvl)))
          (\<lambda>i.
             let clrs1 = clrs[dpos + x := h_fclr (lscp ! i) OR 0xFF000000] in
             if v_z (vect ! (dpos + x)) = wlvl then
               let xl = (if x > 0 then int x - 1 else int ndim - 1);
                   xh = (if x < ndim then int x else 0);
                   yl = (if y > 0 then int dpos - (int ndim + 1)
                         else (int ndim + 1) + push_bit 1 ((int ndim - 1) * (int ndim + 1)));
                   yh = (if y < ndim then int dpos + (int ndim + 1) else (int ndim + 1))
               in
               if \<not> inbi vect (xl + yl) then Inl OutOfBounds
               else if v_z (vect ! nat (xl + yl)) \<noteq> wlvl then Inr clrs1
               else if \<not> inbi vect (xl + yh) then Inl OutOfBounds
               else if v_z (vect ! nat (xl + yh)) \<noteq> wlvl then Inr clrs1
               else if \<not> inbi vect (xh + yl) then Inl OutOfBounds
               else if v_z (vect ! nat (xh + yl)) \<noteq> wlvl then Inr clrs1
               else if \<not> inbi vect (xh + yh) then Inl OutOfBounds
               else if v_z (vect ! nat (xh + yh)) \<noteq> wlvl then Inr clrs1
               else Inr (clrs1[dpos + x := wclr OR (word_of_nat wtrn * 0x1000000)])
             else Inr clrs1))"

text \<open>Lines 939-961: the colours of the corner vertices.\<close>

definition corner_colors ::
  "nat \<Rightarrow> real \<Rightarrow> real \<Rightarrow> FHEI list \<Rightarrow> real \<Rightarrow> FCLR \<Rightarrow> nat \<Rightarrow> FVEC list \<Rightarrow> FCLR list
     \<Rightarrow> fault + FCLR list" where
  "corner_colors ndim fhei wlvl lscp fmax wclr wtrn vect clrs =
     for_stride 0 (ndim + 1) 1
       (\<lambda>y. for_stride 0 (ndim + 1) 1
          (corner_color ndim fhei wlvl lscp fmax wclr wtrn vect y (push_bit 1 (y * (ndim + 1)))))
       clrs"

text \<open>
  The body of lines 965-989: the colour of the vertex \<open>dpos + x + (ndim + 1)\<close> of the
  centre rows, from the colours of the four corners around it. The statements write
  the bytes of the colour one after the other.
\<close>

definition center_color ::
  "nat \<Rightarrow> real \<Rightarrow> FCLR \<Rightarrow> nat \<Rightarrow> FVEC list \<Rightarrow> nat \<Rightarrow> nat \<Rightarrow> nat \<Rightarrow> FCLR list \<Rightarrow> fault + FCLR list" where
  "center_color ndim wlvl wclr wtrn vect y dpos x clrs =
     (let xl = x;
          xh = (if x < ndim then x + 1 else 0);
          yl = dpos;
          yh = (if y < ndim then dpos + push_bit 1 (ndim + 1) else 0);
          c = dpos + x + (ndim + 1)
      in
      if \<not> inb clrs [xl + yl, xl + yh, xh + yl, xh + yh, c] \<or> \<not> inb vect [c] then Inl OutOfBounds
      else
        let clrs1 = clrs[c := set_R (clrs ! c)
                       (drop_bit 2 (clr_R (clrs ! (xl + yl)) + clr_R (clrs ! (xl + yh))
                                  + clr_R (clrs ! (xh + yl)) + clr_R (clrs ! (xh + yh))))];
            clrs2 = clrs1[c := set_G (clrs1 ! c)
                       (drop_bit 2 (clr_G (clrs1 ! (xl + yl)) + clr_G (clrs1 ! (xl + yh))
                                  + clr_G (clrs1 ! (xh + yl)) + clr_G (clrs1 ! (xh + yh))))];
            clrs3 = clrs2[c := set_B (clrs2 ! c)
                       (drop_bit 2 (clr_B (clrs2 ! (xl + yl)) + clr_B (clrs2 ! (xl + yh))
                                  + clr_B (clrs2 ! (xh + yl)) + clr_B (clrs2 ! (xh + yh))))];
            clrs4 = clrs3[c := set_A (clrs3 ! c) 255]
        in
        if v_z (vect ! c) = wlvl then
          let i = ((if clr_A (clrs4 ! (xl + yl)) = wtrn then 0 else 1)
                 + (if clr_A (clrs4 ! (xl + yh)) = wtrn then 0 else 1)
                 + (if clr_A (clrs4 ! (xh + yl)) = wtrn then 0 else 1)
                 + (if clr_A (clrs4 ! (xh + yh)) = wtrn then 0 else 1)) * (255 - wtrn);
              clrs5 = (if i = 0 then clrs4[c := wclr] else clrs4)
          in Inr (clrs5[c := set_A (clrs5 ! c) (wtrn + drop_bit 2 i)])
        else Inr clrs4)"

text \<open>Lines 962-991: the colours of the centre rows.\<close>

definition center_colors ::
  "nat \<Rightarrow> real \<Rightarrow> FCLR \<Rightarrow> nat \<Rightarrow> FVEC list \<Rightarrow> FCLR list \<Rightarrow> fault + FCLR list" where
  "center_colors ndim wlvl wclr wtrn vect clrs =
     for_stride 0 (ndim + 1) 1
       (\<lambda>y. for_stride 0 (ndim + 1) 1
          (center_color ndim wlvl wclr wtrn vect y (push_bit 1 (y * (ndim + 1)))))
       clrs"

text \<open>
  Lines 934-991: the sum of the bands, the colour of the water, then the two passes.
\<close>

definition landscape_colors ::
  "nat \<Rightarrow> real \<Rightarrow> real \<Rightarrow> FHEI list \<Rightarrow> FVEC list \<Rightarrow> FCLR list \<Rightarrow> fault + FCLR list" where
  "landscape_colors ndim fhei wlvl lscp vect clrs =
     bindf (band_sum lscp 0 0)
       (\<lambda>r. case r of (fmax, i) \<Rightarrow>
          let wclr = h_fclr (lscp ! i) AND 0xFFFFFF;
              wtrn = clr_A (h_fclr (lscp ! i))
          in bindf (corner_colors ndim fhei wlvl lscp fmax wclr wtrn vect clrs)
               (center_colors ndim wlvl wclr wtrn vect))"

section \<open>ObjectVBO: the objects on the landscape\<close>

text \<open>
  The first centre vertex of the row \<open>y\<close>:
  \<open>(ndim + 1) + (y * (ndim + 1) << 1)\<close> (lines 721 and 730).
\<close>

definition center_row :: "nat \<Rightarrow> nat \<Rightarrow> nat" where
  "center_row ndim y = (ndim + 1) + push_bit 1 (y * (ndim + 1))"

text \<open>Lines 720-722: the number \<open>xh\<close> of centre vertices above the water.\<close>

definition count_spots :: "nat \<Rightarrow> real \<Rightarrow> FVEC list \<Rightarrow> fault + nat" where
  "count_spots ndim wlvl vect =
     for_stride 0 ndim 1
       (\<lambda>y. for_stride (center_row ndim y) (ndim + center_row ndim y) 1
          (\<lambda>x xh. if inb vect [x] then Inr (if v_z (vect ! x) > wlvl then xh + 1 else xh)
                   else Inl OutOfBounds))
       0"

text \<open>
  Lines 728-732: the same scan fills \<open>farr\<close> from its end, \<open>farr[--yh] = x\<close>. \<open>--yh\<close> at
  \<open>yh = 0\<close> leaves the array.
\<close>

definition fill_spots :: "nat \<Rightarrow> real \<Rightarrow> FVEC list \<Rightarrow> nat list \<Rightarrow> nat \<Rightarrow> fault + nat list \<times> nat" where
  "fill_spots ndim wlvl vect farr yh =
     for_stride 0 ndim 1
       (\<lambda>y. for_stride (center_row ndim y) (ndim + center_row ndim y) 1
          (\<lambda>x s. if inb vect [x] then
                    (if v_z (vect ! x) > wlvl then
                       (if 0 < snd s \<and> inb (fst s) [snd s - 1]
                        then Inr ((fst s)[snd s - 1 := x], snd s - 1)
                        else Inl OutOfBounds)
                     else Inr s)
                  else Inl OutOfBounds))
       (farr, yh)"

text \<open>
  Lines 734-738: the choice.
  \<^verbatim>\<open>for (; xl > 0; xl--) { x = rand() % xh; fobj[xl] = farr[x]; farr[x] = farr[--xh]; }\<close>
  The state is \<open>fobj\<close>, \<open>farr\<close>, \<open>xh\<close> and the number of calls of \<^verbatim>\<open>rand()\<close>.
\<close>

definition pick_spots ::
  "(nat \<Rightarrow> nat) \<Rightarrow> nat \<Rightarrow> nat list \<times> nat list \<times> nat \<times> nat \<Rightarrow> fault + nat list \<times> nat list \<times> nat \<times> nat" where
  "pick_spots rnd xl0 s =
     for_down xl0
       (\<lambda>xl s. case s of (fobj, farr, xh, cnt) \<Rightarrow>
          if xh = 0 then Inl DivByZero
          else
            let x = rnd cnt mod xh in
            if inb fobj [xl] \<and> inb farr [x, xh - 1] then
              Inr (fobj[xl := farr ! x], farr[x := farr ! (xh - 1)], xh - 1, Suc cnt)
            else Inl OutOfBounds)
       s"

text \<open>
  Lines 720-739: the array \<open>fobj\<close>, with the number of chosen vertices in cell 0 and
  the vertices after it. \<^verbatim>\<open>min(xh, inum)\<close> is the macro. The arrays come from
  \<^verbatim>\<open>malloc\<close>; every cell is written before it is read, and the model starts them at 0.
\<close>

definition select_spots :: "FVBO \<Rightarrow> 32 word \<Rightarrow> (nat \<Rightarrow> nat) \<Rightarrow> nat \<Rightarrow> fault + nat list \<times> nat" where
  "select_spots vobj inum rnd cnt =
     (let ndim = unat (m_ndim vobj) in
      bindf (count_spots ndim (m_wlvl vobj) (m_vect vobj))
        (\<lambda>xh.
           let xl = (if xh < unat inum then xh else unat inum);
               fobj = (replicate (1 + xl) 0)[0 := xl]
           in bindf (fill_spots ndim (m_wlvl vobj) (m_vect vobj) (replicate xh 0) xh)
                (\<lambda>r. bindf (pick_spots rnd xl (fobj, fst r, xh, cnt))
                   (\<lambda>s. case s of (fobj, farr, xh, cnt) \<Rightarrow> Inr (fobj, cnt)))))"

text \<open>
  \<^verbatim>\<open>FVBO *ObjectVBO(FVBO *vobj, UINT inum)\<close> (lines 712-846), with the number of calls
  of \<^verbatim>\<open>rand()\<close> before and after. \<^verbatim>\<open>MakeVBO(3 * 5 * fobj[0])\<close> is \<^verbatim>\<open>NULL\<close> when no
  vertex was chosen, and line 744 writes through the pointer without a test.
\<close>

definition ObjectVBO ::
  "FVBO option \<Rightarrow> 32 word \<Rightarrow> (nat \<Rightarrow> nat) \<Rightarrow> nat \<Rightarrow> fault + PVBO option \<times> nat" where
  "ObjectVBO vobj inum rnd cnt =
     (case vobj of
        None \<Rightarrow> Inr (None, cnt)
      | Some v \<Rightarrow>
          if inum = 0 then Inr (None, cnt)
          else
            bindf (select_spots v inum rnd cnt)
              (\<lambda>r. case r of (fobj, cnt') \<Rightarrow>
                 (case MakeVBO (3 * 5 * word_of_nat (fobj ! 0)) of
                    None \<Rightarrow> Inl NullDeref
                  | Some retn \<Rightarrow>
                      if real (unat (m_ndim v)) = 0 then Inl DivByZero
                      else
                        Inr (Some \<lparr>p_flgs = USE_ARBV,
                                   p_ndot = m_ndot retn,
                                   p_npol = 3 * 3 * 4 * word_of_nat (fobj ! 0),
                                   p_grid = m_grid v / real (unat (m_ndim v)),
                                   p_fobj = fobj\<rparr>,
                             cnt' + MakeFacetTex_calls 64))))"

section \<open>LandscapeVBO\<close>

definition DEF_NOBJ :: "32 word" where "DEF_NOBJ = 50"

text \<open>
  \<^verbatim>\<open>FVBO *LandscapeVBO(UINT ndim, UINT flgs, UINT seed, FLOAT grid, FLOAT fhei,
  FLOAT wlvl, FHEI *lscp, LPSTR file)\<close> (lines 865-1063). \<open>lscp\<close> is a pointer:
  \<open>None\<close> is \<^verbatim>\<open>NULL\<close>. \<open>arb\<close> tells whether \<^verbatim>\<open>glGenBuffersARB\<close> was loaded;
  \<open>rand_of seed\<close> is the sequence of \<^verbatim>\<open>rand()\<close> after \<^verbatim>\<open>srand(seed)\<close>; \<open>junk\<close> and
  \<open>past\<close> are what the memory holds in \<open>ftmp\<close> and after \<open>farr\<close>. The call of
  \<^verbatim>\<open>Serialize\<close> at the end writes a file and changes nothing of the result; it is
  modelled on its own below. \<open>ndim = pow(2.0, ndim)\<close> is a conversion to \<^verbatim>\<open>UINT\<close>.
\<close>

definition LandscapeVBO ::
  "32 word \<Rightarrow> 32 word \<Rightarrow> 32 word \<Rightarrow> real \<Rightarrow> real \<Rightarrow> real \<Rightarrow> FHEI list option \<Rightarrow> bool
     \<Rightarrow> (32 word \<Rightarrow> nat \<Rightarrow> nat) \<Rightarrow> (nat \<Rightarrow> real) \<Rightarrow> real \<Rightarrow> fault + FVBO option" where
  "LandscapeVBO ndim0 flgs0 seed grid fhei0 wlvl0 lscp0 arb rand_of junk past =
     (case lscp0 of
        None \<Rightarrow> Inr None
      | Some lscp \<Rightarrow>
        if ndim0 = 0 \<or> grid \<le> 0.0 then Inr None
        else
          let flgs = (if arb then flgs0 else flgs0 AND NOT USE_ARBV);
              ndim = (word_of_nat (2 ^ unat ndim0) :: 32 word);
              fhei = \<bar>fhei0\<bar>;
              wlvl = (if wlvl0 > - 0.5 * fhei then wlvl0 else - 0.5 * fhei);
              n = unat ndim
          in
          case MakeVBO ((ndim + 1) * (ndim + ndim + 2)) of
            None \<Rightarrow> Inl NullDeref
          | Some retn \<Rightarrow>
              bindf (landscape_indices n (m_indx retn)) (\<lambda>ix.
              bindf (landscape_heightmap ndim (rand_of seed) junk) (\<lambda>hm.
              bindf (height_range (fst hm) past n) (\<lambda>mm.
              if snd mm - fst mm = 0 then Inl DivByZero
              else
              bindf (corner_heights n grid fhei wlvl (fst mm) (fhei / (snd mm - fst mm)) (fst hm)
                       (m_vect retn)) (\<lambda>vect1.
              bindf (center_heights n grid vect1) (\<lambda>vect.
              bindf (landscape_colors n fhei wlvl lscp vect (m_clrs retn)) (\<lambda>clrs.
              let retn1 = retn\<lparr>m_indx := fst ix, m_vect := vect, m_clrs := clrs,
                               m_wlvl := wlvl, m_seed := seed, m_flgs := flgs, m_ndim := ndim,
                               m_grid := real n * grid, m_npol := 3 * 4 * ndim * ndim\<rparr>
              in bindf (ObjectVBO (Some retn1) DEF_NOBJ (rand_of seed)
                          (snd hm + MakeFacetTex_calls 64))
                   (\<lambda>ob. Inr (Some (retn1\<lparr>m_next := fst ob\<rparr>))))))))))"

section \<open>Serialize and Deserialize\<close>

definition DEF_FEXL :: nat where "DEF_FEXL = 4"
definition DEF_FEXT :: string where "DEF_FEXT = ''.txt''"

text \<open>
  \<^verbatim>\<open>strstr\<close> of the C library: the rest of the string from the first place where the
  second string occurs in it, \<^verbatim>\<open>NULL\<close> when it occurs nowhere.
\<close>

fun strstr :: "string \<Rightarrow> string \<Rightarrow> string option" where
  "strstr [] t = (if t = [] then Some [] else None)"
| "strstr (c # cs) t = (if prefix t (c # cs) then Some (c # cs) else strstr cs t)"

text \<open>
  The test of lines 681 and 1091:
  \<^verbatim>\<open>(file = strstr(file, DEF_FEXT)) && (strlen(file) == DEF_FEXL)\<close>.
\<close>

definition text_mode :: "string \<Rightarrow> bool" where
  "text_mode file = (case strstr file DEF_FEXT of None \<Rightarrow> False | Some rest \<Rightarrow> length rest = DEF_FEXL)"

text \<open>The camera and the light, global variables of the program.\<close>

record camlight =
  fang_u :: real
  fang_v :: real
  ftrn_x :: real
  ftrn_y :: real
  ftrn_z :: real
  ldir_0 :: real
  ldir_1 :: real
  ldir_2 :: real
  lpos_0 :: real
  lpos_1 :: real
  lpos_2 :: real

text \<open>
  What a file holds: the two unsigned fields and the eleven floats, in the order in
  which they are written, printed with \<^verbatim>\<open>"%u %u %f %f %f %f %f %f %f %f %f %f %f"\<close>
  or dumped in binary.
\<close>

datatype wire = TextWire "32 word" "32 word" "real list" | BinaryWire "32 word" "32 word" "real list"

definition wire_fields :: "camlight \<Rightarrow> real list" where
  "wire_fields g = [fang_u g, fang_v g, ftrn_x g, ftrn_y g, ftrn_z g,
                    ldir_0 g, ldir_1 g, ldir_2 g, lpos_0 g, lpos_1 g, lpos_2 g]"

text \<open>
  \<^verbatim>\<open>void Serialize(LPSTR file, FVBO *vobj)\<close> (lines 677-698): what is written, and
  \<open>None\<close> when \<^verbatim>\<open>fopen\<close> fails (\<open>opens\<close> tells whether it succeeds).
\<close>

definition Serialize :: "bool \<Rightarrow> string \<Rightarrow> FVBO \<Rightarrow> camlight \<Rightarrow> wire option" where
  "Serialize opens file vobj g =
     (if opens then
        (if text_mode file then Some (TextWire (m_seed vobj) (m_flgs vobj) (wire_fields g))
         else Some (BinaryWire (m_seed vobj) (m_flgs vobj) (wire_fields g)))
      else None)"

text \<open>
  The reading part of \<^verbatim>\<open>Deserialize\<close> (lines 1090-1109): which of the two formats the
  file is read in, \<open>None\<close> when it is not read (\<open>open\<close> is false or \<^verbatim>\<open>fopen\<close> fails).
  \<open>True\<close> is the text format.
\<close>

definition Deserialize_mode :: "bool \<Rightarrow> bool \<Rightarrow> string \<Rightarrow> bool option" where
  "Deserialize_mode opn opens file = (if opn \<and> opens then Some (text_mode file) else None)"

section \<open>Predicates of the specification\<close>

text \<open>
  The cell \<open>(x, y)\<close> of a square array of side \<open>S\<close> stored row by row, and its update:
  the program writes \<open>a[x + y * S]\<close> everywhere.
\<close>

definition cell :: "nat \<Rightarrow> 'a list \<Rightarrow> nat \<Rightarrow> nat \<Rightarrow> 'a" where
  "cell S a x y = a ! (x + y * S)"

definition upd :: "nat \<Rightarrow> 'a list \<Rightarrow> nat \<Rightarrow> nat \<Rightarrow> 'a \<Rightarrow> 'a list" where
  "upd S a x y v = a[x + y * S := v]"


text \<open>The same with the side \<open>S\<close> of the array as a parameter, and with its length.\<close>

definition wrapS :: "nat \<Rightarrow> nat \<Rightarrow> real list \<Rightarrow> bool" where
  "wrapS N S a \<longleftrightarrow>
     length a = S * S \<and>
     (\<forall>y\<le>N. cell S a N y = cell S a 0 y) \<and>
     (\<forall>x\<le>N. cell S a x N = cell S a x 0)"

text \<open>
  The term that the iteration \<open>z\<close> of the inner loop of the row pass adds to \<open>fsum\<close>,
  and the one of the column pass.
\<close>

definition row_term :: "nat \<Rightarrow> real list \<Rightarrow> real list \<Rightarrow> nat \<Rightarrow> nat \<Rightarrow> nat \<Rightarrow> real" where
  "row_term sz blur farr dpos x z =
     (farr ! (dpos + (if x < z then x + sz - z else x - z))
      + farr ! (dpos + (if x + z > sz then x + z - sz else x + z))) * blur ! z"

definition col_term :: "nat \<Rightarrow> real list \<Rightarrow> real list \<Rightarrow> nat \<Rightarrow> nat \<Rightarrow> nat \<Rightarrow> real" where
  "col_term sz blur ftmp x y z =
     (ftmp ! (x + (if y < z then (y + sz - z) * (sz + 1) else (y - z) * (sz + 1)))
      + ftmp ! (x + (if y + z > sz then (y + z - sz) * (sz + 1) else (y + z) * (sz + 1))))
     * blur ! z"

text \<open>A loop over a list of indices, with the faults of its body.\<close>

fun fold_fault :: "('a \<Rightarrow> 's \<Rightarrow> fault + 's) \<Rightarrow> 'a list \<Rightarrow> 's \<Rightarrow> fault + 's" where
  "fold_fault body [] s = Inr s"
| "fold_fault body (x # xs) s =
     (case body x s of Inl e \<Rightarrow> Inl e | Inr s' \<Rightarrow> fold_fault body xs s')"

text \<open>
  The centre vertices of a mesh in the order in which lines 720-722 and 728-732 scan
  them, and the candidates: those of them above the water.
\<close>

definition center_indices :: "nat \<Rightarrow> nat list" where
  "center_indices ndim =
     concat (map (\<lambda>y. [center_row ndim y ..< ndim + center_row ndim y]) [0 ..< ndim])"

definition candidates :: "nat \<Rightarrow> real \<Rightarrow> FVEC list \<Rightarrow> nat list" where
  "candidates ndim wlvl vect = filter (\<lambda>x. v_z (vect ! x) > wlvl) (center_indices ndim)"

section \<open>Rules for the loops\<close>

lemma for_stride_rule:
  assumes init: "I i s" and inc: "0 < inc"
    and step: "\<And>j t. I j t \<Longrightarrow> j < n \<Longrightarrow> \<exists>t'. body j t = Inr t' \<and> I (j + inc) t'"
  shows "\<exists>t j. for_stride i n inc body s = Inr t \<and> I j t \<and> n \<le> j"
  using init
proof (induction "n - i" arbitrary: i s rule: less_induct)
  case less
  show ?case
  proof (cases "i < n")
    case True
    from step [OF less.prems True] obtain t' where b: "body i s = Inr t'" and I': "I (i + inc) t'"
      by blast
    have "n - (i + inc) < n - i" using True inc by arith
    from less.hyps [OF this I'] obtain t j
      where "for_stride (i + inc) n inc body t' = Inr t" "I j t" "n \<le> j" by blast
    then show ?thesis using True inc b by (subst for_stride.simps) auto
  next
    case False
    then show ?thesis using less.prems by (subst for_stride.simps) auto
  qed
qed

lemma for_down_rule:
  assumes "I r s"
    and "\<And>z t. 0 < z \<Longrightarrow> z \<le> r \<Longrightarrow> I z t \<Longrightarrow> \<exists>t'. body z t = Inr t' \<and> I (z - 1) t'"
  shows "\<exists>t. for_down r body s = Inr t \<and> I 0 t"
  using assms
proof (induction r arbitrary: s)
  case 0
  then show ?case by simp
next
  case (Suc r)
  from Suc.prems(2) [of "Suc r" s] Suc.prems(1)
  obtain t' where b: "body (Suc r) s = Inr t'" and I: "I r t'" by auto
  have "\<exists>t. for_down r body t' = Inr t \<and> I 0 t"
    by (rule Suc.IH [OF I]) (use Suc.prems(2) in auto)
  then show ?case using b by simp
qed

text \<open>A loop that adds a term per iteration returns the sum.\<close>

lemma for_down_sum:
  fixes t :: "nat \<Rightarrow> real"
  assumes "\<And>z s. 0 < z \<Longrightarrow> z \<le> r \<Longrightarrow> body z s = Inr (s + t z)"
  shows "for_down r body acc = Inr (acc + (\<Sum>z = 1..r. t z))"
  using assms
proof (induction r arbitrary: acc)
  case 0
  then show ?case by simp
next
  case (Suc r)
  have "for_down r body (acc + t (Suc r)) = Inr (acc + t (Suc r) + (\<Sum>z = 1..r. t z))"
    by (rule Suc.IH) (use Suc.prems in auto)
  then show ?case using Suc.prems [of "Suc r" acc] by (simp add: add.commute add.left_commute)
qed

text \<open>
  Two nested counting loops whose body rewrites one cell of an array from its own
  old content: every cell \<open>idx o i\<close> is rewritten once.
\<close>

lemma for_count_map:
  assumes inj: "\<And>i i'. i < n \<Longrightarrow> i' < n \<Longrightarrow> idx i = idx i' \<Longrightarrow> i = i'"
    and body: "\<And>i a. i < n \<Longrightarrow> length a = m \<Longrightarrow> idx i < m \<and> body i a = Inr (a[idx i := g i (a ! idx i)])"
    and len: "length a = m"
  shows "\<exists>a'. for_stride 0 n 1 body a = Inr a' \<and> length a' = m \<and>
           (\<forall>i<n. a' ! idx i = g i (a ! idx i)) \<and>
           (\<forall>j<m. (\<forall>i<n. idx i \<noteq> j) \<longrightarrow> a' ! j = a ! j)"
proof -
  let ?I = "\<lambda>k a'. k \<le> n \<and> length a' = m \<and>
              (\<forall>i<k. a' ! idx i = g i (a ! idx i)) \<and>
              (\<forall>j<m. (\<forall>i<k. idx i \<noteq> j) \<longrightarrow> a' ! j = a ! j)"
  have "\<exists>t k. for_stride 0 n 1 body a = Inr t \<and> ?I k t \<and> n \<le> k"
  proof (rule for_stride_rule [where I = ?I])
    show "?I 0 a" using len by simp
    show "0 < (1::nat)" by simp
    fix k t assume I: "?I k t" and k: "k < n"
    from body [OF k, of t] I have b: "idx k < m" "body k t = Inr (t[idx k := g k (t ! idx k)])"
      by auto
    have old: "t ! idx k = a ! idx k"
    proof -
      have "\<forall>i<k. idx i \<noteq> idx k" using inj k by (metis less_trans nat_neq_iff)
      then show ?thesis using I b by blast
    qed
    have "?I (k + 1) (t[idx k := g k (t ! idx k)])"
    proof (intro conjI allI impI)
      show "k + 1 \<le> n" using k by simp
      show "length (t[idx k := g k (t ! idx k)]) = m" using I by simp
    next
      fix i assume "i < k + 1"
      show "t[idx k := g k (t ! idx k)] ! idx i = g i (a ! idx i)"
      proof (cases "i = k")
        case True
        then show ?thesis using I b old by simp
      next
        case False
        then have "i < k" using \<open>i < k + 1\<close> by simp
        moreover have "idx k \<noteq> idx i" using inj [of i k] k \<open>i < k\<close> by auto
        ultimately show ?thesis using I by simp
      qed
    next
      fix j assume "j < m" "\<forall>i<k + 1. idx i \<noteq> j"
      then have "idx k \<noteq> j" "\<forall>i<k. idx i \<noteq> j" by auto
      then show "t[idx k := g k (t ! idx k)] ! j = a ! j" using I \<open>j < m\<close> by simp
    qed
    then show "\<exists>t'. body k t = Inr t' \<and> ?I (k + 1) t'" using b by simp
  qed
  then obtain t k where "for_stride 0 n 1 body a = Inr t" "?I k t" "n \<le> k" by blast
  moreover then have "k = n" by simp
  ultimately show ?thesis by blast
qed

lemma for_count_map2:
  assumes inj: "\<And>p i p' i'. p < n \<Longrightarrow> i < n' \<Longrightarrow> p' < n \<Longrightarrow> i' < n' \<Longrightarrow> idx p i = idx p' i'
                  \<Longrightarrow> p = p' \<and> i = i'"
    and body: "\<And>p i a. p < n \<Longrightarrow> i < n' \<Longrightarrow> length a = m \<Longrightarrow>
                 idx p i < m \<and> body p i a = Inr (a[idx p i := g p i (a ! idx p i)])"
    and len: "length a = m"
  shows "\<exists>a'. for_stride 0 n 1 (\<lambda>p. for_stride 0 n' 1 (body p)) a = Inr a' \<and> length a' = m \<and>
           (\<forall>p<n. \<forall>i<n'. a' ! idx p i = g p i (a ! idx p i)) \<and>
           (\<forall>j<m. (\<forall>p<n. \<forall>i<n'. idx p i \<noteq> j) \<longrightarrow> a' ! j = a ! j)"
proof -
  let ?I = "\<lambda>k a'. k \<le> n \<and> length a' = m \<and>
              (\<forall>p<k. \<forall>i<n'. a' ! idx p i = g p i (a ! idx p i)) \<and>
              (\<forall>j<m. (\<forall>p<k. \<forall>i<n'. idx p i \<noteq> j) \<longrightarrow> a' ! j = a ! j)"
  have "\<exists>t k. for_stride 0 n 1 (\<lambda>p. for_stride 0 n' 1 (body p)) a = Inr t \<and> ?I k t \<and> n \<le> k"
  proof (rule for_stride_rule [where I = ?I])
    show "?I 0 a" using len by simp
    show "0 < (1::nat)" by simp
    fix k t assume I: "?I k t" and k: "k < n"
    have lt: "length t = m" using I by simp
    have "\<exists>a'. for_stride 0 n' 1 (body k) t = Inr a' \<and> length a' = m \<and>
           (\<forall>i<n'. a' ! idx k i = g k i (t ! idx k i)) \<and>
           (\<forall>j<m. (\<forall>i<n'. idx k i \<noteq> j) \<longrightarrow> a' ! j = t ! j)"
    proof (rule for_count_map [OF _ _ lt])
      show "\<And>i i'. i < n' \<Longrightarrow> i' < n' \<Longrightarrow> idx k i = idx k i' \<Longrightarrow> i = i'"
        using inj k by blast
      show "\<And>i a. i < n' \<Longrightarrow> length a = m \<Longrightarrow>
              idx k i < m \<and> body k i a = Inr (a[idx k i := g k i (a ! idx k i)])"
        using body k by blast
    qed
    then obtain a' where r: "for_stride 0 n' 1 (body k) t = Inr a'" and la: "length a' = m"
      and new: "\<forall>i<n'. a' ! idx k i = g k i (t ! idx k i)"
      and frame: "\<forall>j<m. (\<forall>i<n'. idx k i \<noteq> j) \<longrightarrow> a' ! j = t ! j"
      by blast
    have bnd: "idx p i < m" if "p < n" "i < n'" for p i using body [OF that lt] by simp
    have "?I (k + 1) a'"
    proof (intro conjI allI impI)
      show "k + 1 \<le> n" using k by simp
      show "length a' = m" by fact
    next
      fix p i assume p: "p < k + 1" and i: "i < n'"
      show "a' ! idx p i = g p i (a ! idx p i)"
      proof (cases "p = k")
        case True
        have "\<forall>q<k. \<forall>i'<n'. idx q i' \<noteq> idx k i" using inj k i by (metis less_trans nat_neq_iff)
        then have "t ! idx k i = a ! idx k i" using I bnd [OF k i] by blast
        then show ?thesis using new i True by simp
      next
        case False
        then have pk: "p < k" using p by simp
        then have "\<forall>i'<n'. idx k i' \<noteq> idx p i" using inj [of k _ p i] k i by auto
        then have "a' ! idx p i = t ! idx p i" using frame bnd [of p i] pk k i by auto
        then show ?thesis using I pk i by simp
      qed
    next
      fix j assume j: "j < m" and ne: "\<forall>p<k + 1. \<forall>i<n'. idx p i \<noteq> j"
      then have "a' ! j = t ! j" using frame by auto
      moreover have "t ! j = a ! j" using I j ne by auto
      ultimately show "a' ! j = a ! j" by simp
    qed
    then show "\<exists>t'. for_stride 0 n' 1 (body k) t = Inr t' \<and> ?I (k + 1) t'" using r by blast
  qed
  then obtain t k where "for_stride 0 n 1 (\<lambda>p. for_stride 0 n' 1 (body p)) a = Inr t" "?I k t" "n \<le> k"
    by blast
  moreover then have "k = n" by simp
  ultimately show ?thesis by blast
qed

section \<open>The toroidal wrap of MakeHeightmap\<close>

lemma idx_eq_iff:
  fixes S :: nat
  assumes "x < S" "x' < S"
  shows "x + y * S = x' + y' * S \<longleftrightarrow> x = x' \<and> y = y'"
proof
  assume e: "x + y * S = x' + y' * S"
  have "(x + y * S) mod S = x" "(x' + y' * S) mod S = x'" using assms by simp_all
  with e have "x = x'" by metis
  moreover have "(x + y * S) div S = y" "(x' + y' * S) div S = y'" using assms by simp_all
  with e have "y = y'" by metis
  ultimately show "x = x' \<and> y = y'" ..
qed simp

lemma idx_less:
  fixes S :: nat
  assumes "x < S" "y < S"
  shows "x + y * S < S * S"
proof -
  have "x + y * S < S + y * S" using assms by simp
  also have "\<dots> = (Suc y) * S" by simp
  also have "\<dots> \<le> S * S" using assms by (metis Suc_leI mult_le_mono1)
  finally show ?thesis .
qed


lemma length_upd [simp]: "length (upd S a x y v) = length a"
  by (simp add: upd_def)

lemma cell_upd:
  assumes "x < S" "x' < S" "x + y * S < length a"
  shows "cell S (upd S a x y v) x' y' = (if x' = x \<and> y' = y then v else cell S a x' y')"
  using assms idx_eq_iff [of x S x' y y'] by (auto simp: cell_def upd_def)

lemma diamond_cell_alt:
  "diamond_cell rnd S step hdef y x (a, c) =
     (if step \<le> x \<and> step \<le> y \<and> x + y * S < length a \<and> (x + step) + (y + step) * S < length a
      then Inr (upd S a x y (hdef * frand 0.500 (rnd c)
                    + 0.250 * (cell S a (x - step) (y - step) + cell S a (x + step) (y - step)
                             + cell S a (x - step) (y + step) + cell S a (x + step) (y + step))),
                Suc c)
      else Inl OutOfBounds)"
  unfolding diamond_cell_def cell_def upd_def inb_def Let_def fst_conv snd_conv by simp

lemma diamond_cell_wrapS:
  assumes w: "wrapS N S a" and S: "N < S" and s: "0 < step"
    and x: "step \<le> x" "x + step \<le> N" and y: "step \<le> y" "y + step \<le> N"
  shows "\<exists>a'. diamond_cell rnd S step hdef y x (a, c) = Inr (a', Suc c) \<and> wrapS N S a'"
proof -
  have len: "length a = S * S" using w by (simp add: wrapS_def)
  have i1: "x + y * S < length a" unfolding len by (rule idx_less) (use S x y in auto)
  have i2: "(x + step) + (y + step) * S < length a" unfolding len by (rule idx_less) (use S x y in auto)
  have xS: "x < S" using x S by simp
  have "wrapS N S (upd S a x y v)" for v
    using w S s x y xS i1 unfolding wrapS_def by (auto simp: cell_upd)
  then show ?thesis using x y i1 i2 by (simp add: diamond_cell_alt)
qed

lemma square_cell_alt:
  "square_cell rnd N S step hdef y ybgn yend x (a, c) =
     (let xend = (if x = 0 then N else x);
          xbgn = (if x \<noteq> 0 \<and> x = N then 0 else x)
      in
      if step \<le> xend \<and> step \<le> yend \<and>
         inb a [x + y * S, (xend - step) + y * S, (xbgn + step) + y * S,
                   x + (yend - step) * S, x + (ybgn + step) * S] \<and>
         (x = 0 \<longrightarrow> inb a [N + y * S]) \<and>
         (y = 0 \<longrightarrow> inb a [x + N * S]) then
        let a1 = upd S a x y (hdef * frand 0.500 (rnd c)
                      + 0.250 * (cell S a (xend - step) y + cell S a (xbgn + step) y
                               + cell S a x (yend - step) + cell S a x (ybgn + step)));
            a2 = (if x = 0 then upd S a1 N y (cell S a1 0 y) else a1);
            a3 = (if y = 0 then upd S a2 x N (cell S a2 x 0) else a2)
        in Inr (a3, Suc c)
      else Inl OutOfBounds)"
  unfolding square_cell_def cell_def upd_def Let_def fst_conv snd_conv ..

lemma square_cell_wrapS:
  assumes w: "wrapS N S a" and S: "N < S" and s: "0 < step"
    and x: "x + step \<le> N" "x = 0 \<or> step \<le> x"
    and y: "y + step \<le> N" "y = 0 \<or> step \<le> y"
    and ne: "\<not> (x = 0 \<and> y = 0)"
  shows "\<exists>a'. square_cell rnd N S step hdef y (if y \<noteq> 0 \<and> y = N then 0 else y)
                  (if y = 0 then N else y) x (a, c) = Inr (a', Suc c) \<and> wrapS N S a'"
proof -
  have len: "length a = S * S" using w by (simp add: wrapS_def)
  have lt: "x' + y' * S < length a" if "x' \<le> N" "y' \<le> N" for x' y'
    unfolding len by (rule idx_less) (use S that in auto)
  have xN: "x < N" "y < N" using x y s by auto
  have b: "x \<le> N" "y \<le> N" "(if x = 0 then N else x) - step \<le> N"
    "(if y = 0 then N else y) - step \<le> N" "x + step \<le> N" "y + step \<le> N" "N \<le> N"
    using x y xN by auto
  have g: "inb a [x + y * S, ((if x = 0 then N else x) - step) + y * S, (x + step) + y * S,
                   x + ((if y = 0 then N else y) - step) * S, x + (y + step) * S]"
    unfolding inb_def list.pred_inject
    by (intro conjI lt b) simp_all
  have g2: "inb a [N + y * S]" "inb a [x + N * S]"
    unfolding inb_def list.pred_inject
    by (intro conjI lt b; simp)+
  have st: "step \<le> (if x = 0 then N else x)" "step \<le> (if y = 0 then N else y)"
    using x y by auto
  have lt0: "x + y * S < length a" "N + y * S < length a" "x + N * S < length a"
    using xN by (auto intro!: lt)
  have pres: "wrapS N S (let a1 = upd S a x y v;
            a2 = (if x = 0 then upd S a1 N y (cell S a1 0 y) else a1);
            a3 = (if y = 0 then upd S a2 x N (cell S a2 x 0) else a2) in a3)" for v
    using w S xN ne lt0 unfolding wrapS_def Let_def
    by (auto simp: cell_upd)
  have n: "\<not> (x \<noteq> 0 \<and> x = N)" "\<not> (y \<noteq> 0 \<and> y = N)" using xN by auto
  show ?thesis
    unfolding square_cell_alt Let_def if_not_P [OF n(1)] if_not_P [OF n(2)]
    using g g2 st pres [unfolded Let_def] by simp
qed

lemma dvd_fit:
  fixes N :: nat
  assumes "d dvd N" "d dvd x" "x < N + d"
  shows "x \<le> N"
proof (rule ccontr)
  assume "\<not> x \<le> N"
  then have "0 < x - N" by simp
  moreover have "d dvd x - N" using assms by (simp add: dvd_diff_nat)
  ultimately have "d \<le> x - N" by (simp add: dvd_imp_le)
  with assms \<open>\<not> x \<le> N\<close> show False by arith
qed

lemma dvd_ge:
  fixes x :: nat
  assumes "d dvd x"
  shows "x = 0 \<or> d \<le> x"
  using assms by (auto dest: dvd_imp_le)

lemma diamond_row_wrapS:
  assumes w: "wrapS N S a" and S: "N < S" and s: "0 < step" and d: "2 * step dvd N"
    and y: "step \<le> y" "y + step \<le> N"
  shows "\<exists>a' c'. for_stride step N (2 * step) (diamond_cell rnd S step hdef y) (a, c) = Inr (a', c')
           \<and> wrapS N S a'"
proof -
  let ?I = "\<lambda>x (st :: hm_state). wrapS N S (fst st) \<and> 2 * step dvd x + step \<and> step \<le> x"
  have "\<exists>t j. for_stride step N (2 * step) (diamond_cell rnd S step hdef y) (a, c) = Inr t
          \<and> ?I j t \<and> N \<le> j"
  proof (rule for_stride_rule [where I = ?I])
    show "?I step (a, c)" using w by (simp add: mult_2)
    show "0 < 2 * step" using s by simp
    fix j and t :: hm_state
    assume I: "?I j t" and j: "j < N"
    have "j + step \<le> N" using d I j s by (intro dvd_fit [of "2 * step"]) auto
    with I diamond_cell_wrapS [of N S "fst t" step j y rnd hdef "snd t"] S s y
    obtain a' where "diamond_cell rnd S step hdef y j t = Inr (a', Suc (snd t))" "wrapS N S a'"
      by auto
    moreover have e: "(j + 2 * step) + step = (j + step) + 2 * step" by simp
    have "2 * step dvd (j + step) + 2 * step" by (rule dvd_add) (use I in auto)
    then have "2 * step dvd (j + 2 * step) + step" unfolding e .
    ultimately show "\<exists>t'. diamond_cell rnd S step hdef y j t = Inr t' \<and> ?I (j + 2 * step) t'"
      using I by auto
  qed
  then show ?thesis by auto
qed

lemma diamond_pass_wrapS:
  assumes w: "wrapS N S a" and S: "N < S" and s: "0 < step" and d: "2 * step dvd N"
  shows "\<exists>a' c'. diamond_pass rnd N S step hdef (a, c) = Inr (a', c') \<and> wrapS N S a'"
proof -
  let ?I = "\<lambda>y (st :: hm_state). wrapS N S (fst st) \<and> 2 * step dvd y + step \<and> step \<le> y"
  have "\<exists>t j. diamond_pass rnd N S step hdef (a, c) = Inr t \<and> ?I j t \<and> N \<le> j"
    unfolding diamond_pass_def
  proof (rule for_stride_rule [where I = ?I])
    show "?I step (a, c)" using w by (simp add: mult_2)
    show "0 < 2 * step" using s by simp
    fix j and t :: hm_state
    assume I: "?I j t" and j: "j < N"
    have "j + step \<le> N" using d I j s by (intro dvd_fit [of "2 * step"]) auto
    with I diamond_row_wrapS [of N S "fst t" step j rnd hdef "snd t"] S s d
    obtain a' c' where "for_stride step N (2 * step) (diamond_cell rnd S step hdef j) t = Inr (a', c')"
      "wrapS N S a'"
      by auto
    moreover have e: "(j + 2 * step) + step = (j + step) + 2 * step" by simp
    have "2 * step dvd (j + step) + 2 * step" by (rule dvd_add) (use I in auto)
    then have "2 * step dvd (j + 2 * step) + step" unfolding e .
    ultimately show "\<exists>t'. for_stride step N (2 * step) (diamond_cell rnd S step hdef j) t = Inr t'
        \<and> ?I (j + 2 * step) t'"
      using I by auto
  qed
  then show ?thesis by auto
qed

lemma square_row_wrapS:
  assumes w: "wrapS N S a" and S: "N < S" and s: "0 < step" and d: "step dvd N"
    and y: "y < N" "step dvd y" "y = 0 \<longrightarrow> \<not> oddc"
  shows "\<exists>a' c'. square_row rnd N S step hdef y (oddc, (a, c)) = Inr (\<not> oddc, (a', c'))
           \<and> wrapS N S a'"
proof -
  let ?I = "\<lambda>x (st :: hm_state). wrapS N S (fst st) \<and> step dvd x \<and> (y = 0 \<longrightarrow> 0 < x)"
  let ?body = "square_cell rnd N S step hdef y (if y \<noteq> 0 \<and> y = N then 0 else y)
                 (if y = 0 then N else y)"
  have ys: "y + step \<le> N" using d y s by (intro dvd_fit [of step]) auto
  have y0: "y = 0 \<or> step \<le> y" using y by (intro dvd_ge)
  have "\<exists>t j. for_stride (if oddc then 0 else step) N (2 * step) ?body (a, c) = Inr t
          \<and> ?I j t \<and> N \<le> j"
  proof (rule for_stride_rule [where I = ?I])
    show "?I (if oddc then 0 else step) (a, c)" using w y s by simp
    show "0 < 2 * step" using s by simp
    fix j and t :: hm_state
    assume I: "?I j t" and j: "j < N"
    have js: "j + step \<le> N" using d I j s by (intro dvd_fit [of step]) auto
    have j0: "j = 0 \<or> step \<le> j" using I by (intro dvd_ge) simp
    have "\<not> (j = 0 \<and> y = 0)" using I by auto
    with I square_cell_wrapS [of N S "fst t" step j y rnd hdef "snd t"] S s js j0 ys y0
    obtain a' where "?body j t = Inr (a', Suc (snd t))" "wrapS N S a'"
      by auto
    then show "\<exists>t'. ?body j t = Inr t' \<and> ?I (j + 2 * step) t'"
      using I s by auto
  qed
  then show ?thesis by (auto simp: square_row_def Let_def)
qed

lemma square_pass_wrapS:
  assumes w: "wrapS N S a" and S: "N < S" and s: "0 < step" and d: "step dvd N"
  shows "\<exists>a' c'. square_pass rnd N S step hdef (a, c) = Inr (a', c') \<and> wrapS N S a'"
proof -
  let ?I = "\<lambda>y (os :: bool \<times> hm_state).
              wrapS N S (fst (snd os)) \<and> step dvd y \<and> (y = 0 \<longrightarrow> \<not> fst os)"
  have "\<exists>t j. for_stride 0 N step (square_row rnd N S step hdef) (False, (a, c)) = Inr t
          \<and> ?I j t \<and> N \<le> j"
  proof (rule for_stride_rule [where I = ?I])
    show "?I 0 (False, (a, c))" using w by simp
    show "0 < step" by fact
    fix j and t :: "bool \<times> hm_state"
    assume I: "?I j t" and j: "j < N"
    obtain oddc a0 c0 where t: "t = (oddc, (a0, c0))" by (cases t) auto
    from I j square_row_wrapS [of N S a0 step j oddc rnd hdef c0] S s d
    obtain a' c' where "square_row rnd N S step hdef j t = Inr (\<not> oddc, (a', c'))" "wrapS N S a'"
      unfolding t by auto
    then show "\<exists>t'. square_row rnd N S step hdef j t = Inr t' \<and> ?I (j + step) t'"
      using I s by auto
  qed
  then show ?thesis by (auto simp: square_pass_def)
qed

lemma hm_steps_wrapS:
  assumes S: "N < S" and N: "N = 2 ^ k"
  shows "j < k \<Longrightarrow> wrapS N S a \<Longrightarrow>
    \<exists>a' c'. hm_steps rnd N S dmpf (2 ^ j) hdef (a, c) = Inr (a', c') \<and> wrapS N S a'"
proof (induction j arbitrary: a c hdef)
  case 0
  have d: "2 * 1 dvd N" using 0 N by (cases k) auto
  from diamond_pass_wrapS [OF "0.prems"(2) S _ d, of rnd hdef c]
  obtain a1 c1 where 1: "diamond_pass rnd N S 1 hdef (a, c) = Inr (a1, c1)" "wrapS N S a1"
    by auto
  from square_pass_wrapS [OF 1(2) S, of 1 rnd hdef c1]
  obtain a2 c2 where 2: "square_pass rnd N S 1 hdef (a1, c1) = Inr (a2, c2)" "wrapS N S a2"
    by auto
  show ?case using 1 2 by (simp add: hm_steps.simps [of _ _ _ _ "Suc 0"] hm_steps.simps [of _ _ _ _ 0])
next
  case (Suc j)
  have d: "2 * 2 ^ Suc j dvd N"
    unfolding N using Suc.prems(1) by (metis Suc_leI power_Suc le_imp_power_dvd)
  then have d': "(2::nat) ^ Suc j dvd N" by (metis dvd_mult_right)
  from diamond_pass_wrapS [OF Suc.prems(2) S _ d, of rnd hdef c]
  obtain a1 c1 where 1: "diamond_pass rnd N S (2 ^ Suc j) hdef (a, c) = Inr (a1, c1)" "wrapS N S a1"
    by auto
  from square_pass_wrapS [OF 1(2) S _ d', of rnd hdef c1]
  obtain a2 c2 where 2: "square_pass rnd N S (2 ^ Suc j) hdef (a1, c1) = Inr (a2, c2)" "wrapS N S a2"
    by auto
  from Suc.IH [OF _ 2(2), of "hdef * dmpf" c2] Suc.prems(1)
  obtain a3 c3 where 3: "hm_steps rnd N S dmpf (2 ^ j) (hdef * dmpf) (a2, c2) = Inr (a3, c3)"
    "wrapS N S a3" by auto
  show ?case using 1 2 3 by (subst hm_steps.simps) simp
qed

lemma pow2_word_facts:
  fixes k :: nat
  assumes "1 \<le> k" "k \<le> 15"
  shows "(2 ^ k :: 32 word) AND (2 ^ k - 1) = 0"
    and "(2 ^ k :: 32 word) \<noteq> 1"
    and "unat (2 ^ k :: 32 word) = 2 ^ k"
    and "unat ((2 ^ k :: 32 word) + 1) = 2 ^ k + 1"
    and "unat (((2 ^ k :: 32 word) + 1) * (2 ^ k + 1)) = (2 ^ k + 1) * (2 ^ k + 1)"
    and "unat (drop_bit 1 (2 ^ k :: 32 word)) = 2 ^ (k - 1)"
proof -
  have p: "(2::nat) ^ k \<le> 2 ^ 15" using assms by (intro power_increasing) auto
  have w: "(2 ^ k :: 32 word) = of_nat (2 ^ k)" by simp
  show u: "unat (2 ^ k :: 32 word) = 2 ^ k"
    unfolding w unat_of_nat using p by simp
  have "(2::nat) ^ 1 \<le> 2 ^ k" using assms by (intro power_increasing) auto
  then have "unat (2 ^ k :: 32 word) \<noteq> unat (1 :: 32 word)" unfolding u using assms by simp
  then show "(2 ^ k :: 32 word) \<noteq> 1" by auto
  have "(2 ^ k :: 32 word) AND mask k = 0"
    by (rule bit_eqI) (auto simp: bit_simps)
  then show "(2 ^ k :: 32 word) AND (2 ^ k - 1) = 0"
    by (simp add: mask_eq_exp_minus_1)
  show u1: "unat ((2 ^ k :: 32 word) + 1) = 2 ^ k + 1"
    using p by (simp add: unat_word_ariths u)
  have "((2::nat) ^ k + 1) * (2 ^ k + 1) \<le> (2 ^ 15 + 1) * (2 ^ 15 + 1)"
    using p by (intro mult_le_mono) auto
  then show "unat (((2 ^ k :: 32 word) + 1) * (2 ^ k + 1)) = (2 ^ k + 1) * (2 ^ k + 1)"
    by (simp add: unat_word_ariths(2) u1)
  show "unat (drop_bit 1 (2 ^ k :: 32 word)) = 2 ^ (k - 1)"
    unfolding unat_drop_bit_eq u using assms by (cases k) (simp_all add: drop_bit_Suc)
qed


lemma wrapS_replicate:
  assumes "N < S"
  shows "wrapS N S (replicate (S * S) 0)"
proof -
  have "cell S (replicate (S * S) (0::real)) x y = 0" if "x \<le> N" "y \<le> N" for x y
    unfolding cell_def using idx_less [of x S y] that assms by simp
  then show ?thesis by (simp add: wrapS_def)
qed

lemma MakeHeightmap_wrapS:
  assumes k: "1 \<le> k" "k \<le> 15"
  shows "\<exists>farr cnt'. MakeHeightmap (2 ^ k) dmpf rnd cnt = Inr (Some (farr, cnt')) \<and>
           wrapS (2 ^ k) (2 ^ k + 1) farr"
proof -
  note f = pow2_word_facts [OF k]
  have "k - 1 < k" using k by simp
  have S: "(2::nat) ^ k < 2 ^ k + 1" by simp
  from hm_steps_wrapS [OF S refl \<open>k - 1 < k\<close> wrapS_replicate [OF S], of rnd
      "2 powr (- \<bar>dmpf\<bar>)" "2 powr (- \<bar>dmpf\<bar>)" cnt]
  obtain a' c' where h: "hm_steps rnd (2 ^ k) (2 ^ k + 1) (2 powr (- \<bar>dmpf\<bar>)) (2 ^ (k - 1))
       (2 powr (- \<bar>dmpf\<bar>)) (replicate ((2 ^ k + 1) * (2 ^ k + 1)) 0, cnt) = Inr (a', c')"
    and w: "wrapS (2 ^ k) (2 ^ k + 1) a'"
    by auto
  have "MakeHeightmap (2 ^ k) dmpf rnd cnt = Inr (Some (a', c'))"
    unfolding MakeHeightmap_def Let_def f using f(1,2) h by simp
  with w show ?thesis by blast
qed




section \<open>Properties of MakeHeightmap\<close>

lemma MakeHeightmap_null_iff:
  "MakeHeightmap sz dmpf rnd cnt = Inr None \<longleftrightarrow> (sz AND (sz - 1) \<noteq> 0 \<or> sz = 1)"
  by (simp add: MakeHeightmap_def Let_def split: sum.splits)

text \<open>
  Claim C7 (the code at the failing input). The comment of \<^verbatim>\<open>MakeHeightmap\<close> promises
  \<^verbatim>\<open>NULL\<close> for every size that is not \<open>2^K\<close> with \<open>K\<close> natural, and the test rejects
  size 1. Size 0 is not a power of two, but \<open>0 & (0 - 1)\<close> is \<open>0\<close>: the function does
  not return \<^verbatim>\<open>NULL\<close>, it returns a heightmap of one cell and draws no random number.
\<close>

theorem MakeHeightmap_size_zero:
  "MakeHeightmap 0 dmpf rnd cnt = Inr (Some ([0], cnt))"
  by (simp add: MakeHeightmap_def hm_steps.simps)

theorem MakeHeightmap_size_zero_witness:
  "MakeHeightmap 0 1 (\<lambda>i. 0) 0 \<noteq> Inr None \<and> (0 :: 32 word) AND (0 - 1) = 0"
  using MakeHeightmap_size_zero [of 1 "\<lambda>i. 0" 0] by simp

section \<open>Properties of BlurHeightmap\<close>

subsection \<open>The kernel\<close>

lemma blur_kernel_pos:
  assumes "fsig \<noteq> 0"
  shows "\<exists>blur. blur_kernel fsig = Inr blur \<and> length blur = nat (tr fsig) + 1 \<and>
           (\<forall>z\<le>nat (tr fsig). 0 < blur ! z)"
proof -
  let ?r = "nat (tr fsig)"
  let ?fsum = "9.0 / (2.0 * fsig * fsig)"
  let ?b1 = "\<lambda>x blur. if inb blur [x, 0] then
                       Inr ((blur[x := exp (- real (x * x) * ?fsum)])
                              [0 := blur ! 0 + exp (- real (x * x) * ?fsum)])
                     else Inl OutOfBounds"
  let ?b2 = "\<lambda>x (blur :: real list). if inb blur [x, 0] then Inr (blur[x := blur ! x * blur ! 0])
                      else Inl OutOfBounds"
  let ?I1 = "\<lambda>z (t :: real list). length t = ?r + 1 \<and> 0 \<le> t ! 0 \<and> (\<forall>x. z < x \<and> x \<le> ?r \<longrightarrow> 0 < t ! x)"
  have "\<exists>t. for_down ?r ?b1 (replicate (?r + 1) 0) = Inr t \<and> ?I1 0 t"
  proof (rule for_down_rule [where I = ?I1])
    show "?I1 ?r (replicate (?r + 1) 0)" by simp
    fix z t assume z: "0 < z" "z \<le> ?r" and I: "?I1 z t"
    have "?I1 (z - 1) ((t[z := exp (- real (z * z) * ?fsum)])
                              [0 := t ! 0 + exp (- real (z * z) * ?fsum)])"
      using z I by (auto simp: nth_list_update add_nonneg_nonneg)
    then show "\<exists>t'. ?b1 z t = Inr t' \<and> ?I1 (z - 1) t'"
      using z I by (simp add: inb_def)
  qed
  then obtain blur1 where l1: "for_down ?r ?b1 (replicate (?r + 1) 0) = Inr blur1" and I1: "?I1 0 blur1"
    by blast
  let ?blur2 = "blur1[0 := 0.5 / (blur1 ! 0 + 0.5)]"
  let ?I2 = "\<lambda>z (t :: real list). length t = ?r + 1 \<and> (\<forall>x\<le>?r. 0 < t ! x)"
  have d: "blur1 ! 0 + 0.5 \<noteq> 0" "0 < 0.5 / (blur1 ! 0 + 0.5)" using I1 by auto
  have "\<exists>t. for_down ?r ?b2 ?blur2 = Inr t \<and> ?I2 0 t"
  proof (rule for_down_rule [where I = ?I2])
    show "?I2 ?r ?blur2" using I1 d(2) by (auto simp: nth_list_update)
    fix z t assume z: "0 < z" "z \<le> ?r" and I: "?I2 z t"
    have "?I2 (z - 1) (t[z := t ! z * t ! 0])"
      using z I by (auto simp: nth_list_update)
    then show "\<exists>t'. ?b2 z t = Inr t' \<and> ?I2 (z - 1) t'"
      using z I by (simp add: inb_def)
  qed
  then obtain blur where l2: "for_down ?r ?b2 ?blur2 = Inr blur" and I2: "?I2 0 blur"
    by blast
  have "blur_kernel fsig = Inr blur"
    unfolding blur_kernel_def Let_def using assms l1 l2 d(1) by simp
  then show ?thesis using I2 by auto
qed

lemma blur_kernel_radius0:
  assumes "fsig \<noteq> 0" "nat (tr fsig) = 0"
  shows "blur_kernel fsig = Inr [1]"
  using assms by (simp add: blur_kernel_def)

lemma idx_less':
  fixes S :: nat
  assumes "x < S" "y < S"
  shows "y * S + x < S * S"
  using idx_less [OF assms] by (simp add: add.commute)

lemma idx_eq_iff':
  fixes S :: nat
  assumes "x < S" "x' < S"
  shows "y * S + x = y' * S + x' \<longleftrightarrow> x = x' \<and> y = y'"
  using idx_eq_iff [OF assms, of y y'] by (simp add: add.commute)

lemma blur_row_fsum_eq:
  assumes lf: "length farr = (sz + 1) * (sz + 1)" and r: "r \<le> sz" and lb: "length blur = r + 1"
    and x: "x \<le> sz" and y: "y \<le> sz"
  shows "blur_row_fsum sz blur farr r (y * (sz + 1)) x
           = Inr (\<Sum>z = 1..r. row_term sz blur farr (y * (sz + 1)) x z)"
proof -
  have b: "y * (sz + 1) + c < length farr" if "c \<le> sz" for c
    unfolding lf by (rule idx_less') (use that y in auto)
  have "blur_row_fsum sz blur farr r (y * (sz + 1)) x
          = Inr (0.0 + (\<Sum>z = 1..r. row_term sz blur farr (y * (sz + 1)) x z))"
    unfolding blur_row_fsum_def
  proof (rule for_down_sum)
    fix z and s :: real assume z: "0 < z" "z \<le> r"
    have c1: "(if x < z then x + sz - z else x - z) \<le> sz" using z r x by auto
    have c2: "(if x + z > sz then x + z - sz else x + z) \<le> sz" using z r x by auto
    have "inb farr [y * (sz + 1) + (if x < z then x + sz - z else x - z),
                    y * (sz + 1) + (if x + z > sz then x + z - sz else x + z)]"
      unfolding inb_def using b [OF c1] b [OF c2] by simp
    moreover have "inb blur [z]" unfolding inb_def using z lb by simp
    moreover have "x < z \<longrightarrow> z \<le> x + sz" using z r by auto
    ultimately have g: "(x < z \<longrightarrow> z \<le> x + sz) \<and>
             inb farr [y * (sz + 1) + (if x < z then x + sz - z else x - z),
                       y * (sz + 1) + (if x + z > sz then x + z - sz else x + z)] \<and>
             inb blur [z]" by blast
    show "(if (x < z \<longrightarrow> z \<le> x + sz) \<and>
             inb farr [y * (sz + 1) + (if x < z then x + sz - z else x - z),
                       y * (sz + 1) + (if x + z > sz then x + z - sz else x + z)] \<and>
             inb blur [z]
          then Inr (s + (farr ! (y * (sz + 1) + (if x < z then x + sz - z else x - z))
                          + farr ! (y * (sz + 1) + (if x + z > sz then x + z - sz else x + z)))
                         * blur ! z)
          else Inl OutOfBounds) = Inr (s + row_term sz blur farr (y * (sz + 1)) x z)"
      unfolding row_term_def by (subst if_P [OF g]) (rule refl)
  qed
  then show ?thesis by simp
qed

lemma blur_col_fsum_eq:
  assumes lf: "length ftmp = (sz + 1) * (sz + 1)" and r: "r \<le> sz" and lb: "length blur = r + 1"
    and x: "x \<le> sz" and y: "y \<le> sz"
  shows "blur_col_fsum sz blur ftmp r x y = Inr (\<Sum>z = 1..r. col_term sz blur ftmp x y z)"
proof -
  have b: "x + c * (sz + 1) < length ftmp" if "c \<le> sz" for c
    unfolding lf by (rule idx_less) (use that x in auto)
  have "blur_col_fsum sz blur ftmp r x y = Inr (0.0 + (\<Sum>z = 1..r. col_term sz blur ftmp x y z))"
    unfolding blur_col_fsum_def
  proof (rule for_down_sum)
    fix z and s :: real assume z: "0 < z" "z \<le> r"
    have c1: "(if y < z then y + sz - z else y - z) \<le> sz" using z r y by auto
    have c2: "(if y + z > sz then y + z - sz else y + z) \<le> sz" using z r y by auto
    have e1: "(if y < z then (y + sz - z) * (sz + 1) else (y - z) * (sz + 1))
                = (if y < z then y + sz - z else y - z) * (sz + 1)" by simp
    have e2: "(if y + z > sz then (y + z - sz) * (sz + 1) else (y + z) * (sz + 1))
                = (if y + z > sz then y + z - sz else y + z) * (sz + 1)" by simp
    have "inb ftmp [x + (if y < z then (y + sz - z) * (sz + 1) else (y - z) * (sz + 1)),
                    x + (if y + z > sz then (y + z - sz) * (sz + 1) else (y + z) * (sz + 1))]"
      unfolding inb_def e1 e2 using b [OF c1] b [OF c2] by simp
    moreover have "inb blur [z]" unfolding inb_def using z lb by simp
    moreover have "y < z \<longrightarrow> z \<le> y + sz" using z r by auto
    ultimately have g: "(y < z \<longrightarrow> z \<le> y + sz) \<and>
             inb ftmp [x + (if y < z then (y + sz - z) * (sz + 1) else (y - z) * (sz + 1)),
                       x + (if y + z > sz then (y + z - sz) * (sz + 1) else (y + z) * (sz + 1))] \<and>
             inb blur [z]" by blast
    show "(if (y < z \<longrightarrow> z \<le> y + sz) \<and>
             inb ftmp [x + (if y < z then (y + sz - z) * (sz + 1) else (y - z) * (sz + 1)),
                       x + (if y + z > sz then (y + z - sz) * (sz + 1) else (y + z) * (sz + 1))] \<and>
             inb blur [z]
          then Inr (s + (ftmp ! (x + (if y < z then (y + sz - z) * (sz + 1)
                                         else (y - z) * (sz + 1)))
                          + ftmp ! (x + (if y + z > sz then (y + z - sz) * (sz + 1)
                                         else (y + z) * (sz + 1))))
                         * blur ! z)
          else Inl OutOfBounds) = Inr (s + col_term sz blur ftmp x y z)"
      unfolding col_term_def by (subst if_P [OF g]) (rule refl)
  qed
  then show ?thesis by simp
qed

lemma blur_row_pass_cells:
  assumes lf: "length farr = (sz + 1) * (sz + 1)" and r: "r \<le> sz" and lb: "length blur = r + 1"
    and lt: "length ftmp = (sz + 1) * (sz + 1)"
  shows "\<exists>ftmp'. blur_row_pass sz blur farr r ftmp = Inr ftmp' \<and>
           length ftmp' = (sz + 1) * (sz + 1) \<and>
           (\<forall>y \<le> sz. \<forall>x \<le> sz. ftmp' ! (y * (sz + 1) + x) =
              ftmp ! (y * (sz + 1) + x) * blur ! 0
              + (\<Sum>z = 1..r. row_term sz blur farr (y * (sz + 1)) x z))"
proof -
  let ?S = "sz + 1"
  let ?idx = "\<lambda>y x. y * ?S + x"
  let ?g = "\<lambda>y x v. v * blur ! 0 + (\<Sum>z = 1..r. row_term sz blur farr (y * ?S) x z)"
  have "\<exists>a'. for_stride 0 ?S 1 (\<lambda>y. for_stride 0 ?S 1 (blur_row_cell sz blur farr r (y * ?S))) ftmp
              = Inr a' \<and> length a' = ?S * ?S \<and>
           (\<forall>p<?S. \<forall>i<?S. a' ! ?idx p i = ?g p i (ftmp ! ?idx p i)) \<and>
           (\<forall>j<?S * ?S. (\<forall>p<?S. \<forall>i<?S. ?idx p i \<noteq> j) \<longrightarrow> a' ! j = ftmp ! j)"
  proof (rule for_count_map2 [where idx = ?idx and g = ?g, OF _ _ lt])
    show "\<And>p i p' i'. p < ?S \<Longrightarrow> i < ?S \<Longrightarrow> p' < ?S \<Longrightarrow> i' < ?S \<Longrightarrow> ?idx p i = ?idx p' i'
            \<Longrightarrow> p = p' \<and> i = i'"
      using idx_eq_iff' by blast
    fix p i and a :: "real list"
    assume p: "p < ?S" and i: "i < ?S" and la: "length a = ?S * ?S"
    have bnd: "?idx p i < ?S * ?S" using idx_less' [OF i p] .
    have "blur_row_fsum sz blur farr r (p * ?S) i
            = Inr (\<Sum>z = 1..r. row_term sz blur farr (p * ?S) i z)"
      by (rule blur_row_fsum_eq [OF lf r lb]) (use p i in auto)
    then have "blur_row_cell sz blur farr r (p * ?S) i a = Inr (a[?idx p i := ?g p i (a ! ?idx p i)])"
      unfolding blur_row_cell_def using bnd la lb by (simp add: inb_def)
    with bnd show "?idx p i < ?S * ?S \<and>
        blur_row_cell sz blur farr r (p * ?S) i a = Inr (a[?idx p i := ?g p i (a ! ?idx p i)])"
      by blast
  qed
  then show ?thesis unfolding blur_row_pass_def by (auto simp: less_Suc_eq_le)
qed

lemma blur_col_pass_cells:
  assumes lf: "length ftmp = (sz + 1) * (sz + 1)" and r: "r \<le> sz" and lb: "length blur = r + 1"
    and lt: "length farr = (sz + 1) * (sz + 1)"
  shows "\<exists>farr'. blur_col_pass sz blur ftmp r farr = Inr farr' \<and>
           length farr' = (sz + 1) * (sz + 1) \<and>
           (\<forall>x \<le> sz. \<forall>y \<le> sz. farr' ! (x + y * (sz + 1)) =
              farr ! (x + y * (sz + 1)) * blur ! 0
              + (\<Sum>z = 1..r. col_term sz blur ftmp x y z))"
proof -
  let ?S = "sz + 1"
  let ?idx = "\<lambda>x y. x + y * ?S"
  let ?g = "\<lambda>x y v. v * blur ! 0 + (\<Sum>z = 1..r. col_term sz blur ftmp x y z)"
  have "\<exists>a'. for_stride 0 ?S 1 (\<lambda>x. for_stride 0 ?S 1 (blur_col_cell sz blur ftmp r x)) farr
              = Inr a' \<and> length a' = ?S * ?S \<and>
           (\<forall>p<?S. \<forall>i<?S. a' ! ?idx p i = ?g p i (farr ! ?idx p i)) \<and>
           (\<forall>j<?S * ?S. (\<forall>p<?S. \<forall>i<?S. ?idx p i \<noteq> j) \<longrightarrow> a' ! j = farr ! j)"
  proof (rule for_count_map2 [where idx = ?idx and g = ?g, OF _ _ lt])
    show "\<And>p i p' i'. p < ?S \<Longrightarrow> i < ?S \<Longrightarrow> p' < ?S \<Longrightarrow> i' < ?S \<Longrightarrow> ?idx p i = ?idx p' i'
            \<Longrightarrow> p = p' \<and> i = i'"
      using idx_eq_iff by blast
    fix p i and a :: "real list"
    assume p: "p < ?S" and i: "i < ?S" and la: "length a = ?S * ?S"
    have bnd: "?idx p i < ?S * ?S" using idx_less [OF p i] .
    have "blur_col_fsum sz blur ftmp r p i = Inr (\<Sum>z = 1..r. col_term sz blur ftmp p i z)"
      by (rule blur_col_fsum_eq [OF lf r lb]) (use p i in auto)
    then have "blur_col_cell sz blur ftmp r p i a = Inr (a[?idx p i := ?g p i (a ! ?idx p i)])"
      unfolding blur_col_cell_def using bnd la lb by (simp add: inb_def)
    with bnd show "?idx p i < ?S * ?S \<and>
        blur_col_cell sz blur ftmp r p i a = Inr (a[?idx p i := ?g p i (a ! ?idx p i)])"
      by blast
  qed
  then show ?thesis unfolding blur_col_pass_def by (auto simp: less_Suc_eq_le)
qed

lemma tr_nonneg: "0 \<le> f \<Longrightarrow> tr f = \<lfloor>f\<rfloor>"
  by (simp add: tr_def)

lemma tr_radius:
  assumes "0 \<le> f" "f < real sz"
  shows "nat (tr f) < sz"
proof -
  have "real_of_int \<lfloor>f\<rfloor> \<le> f" by simp
  then have "real_of_int \<lfloor>f\<rfloor> < real sz" using assms by linarith
  then have "\<lfloor>f\<rfloor> < int sz" by simp
  then show ?thesis using assms by (simp add: tr_nonneg)
qed

lemma ftmp_cells:
  assumes "(sz + 1) * (sz + 1) < (2::nat) ^ 30"
  shows "((sz + 1) * (sz + 1) * 4) mod 2 ^ 32 div 4 = (sz + 1) * (sz + 1)"
proof -
  have "(sz + 1) * (sz + 1) * 4 < 2 ^ 32" using assms by simp
  then show ?thesis by simp
qed

text \<open>What the blur computes on the path that is not a no-op.\<close>

lemma BlurHeightmap_active:
  assumes s0: "\<bar>fsig0\<bar> * 3 \<noteq> 0" and s1: "\<bar>fsig0\<bar> * 3 < real sz"
    and lf: "length farr = (sz + 1) * (sz + 1)"
    and small: "(sz + 1) * (sz + 1) < (2::nat) ^ 30"
  shows "\<exists>blur ftmp' out.
           blur_kernel (\<bar>fsig0\<bar> * 3) = Inr blur \<and>
           length blur = nat (tr (\<bar>fsig0\<bar> * 3)) + 1 \<and>
           (\<forall>z\<le>nat (tr (\<bar>fsig0\<bar> * 3)). 0 < blur ! z) \<and>
           blur_row_pass sz blur farr (nat (tr (\<bar>fsig0\<bar> * 3)))
             (map junk [0 ..< (sz + 1) * (sz + 1)]) = Inr ftmp' \<and>
           length ftmp' = (sz + 1) * (sz + 1) \<and>
           (\<forall>y \<le> sz. \<forall>x \<le> sz. ftmp' ! (y * (sz + 1) + x) =
              junk (y * (sz + 1) + x) * blur ! 0
              + (\<Sum>z = 1..nat (tr (\<bar>fsig0\<bar> * 3)). row_term sz blur farr (y * (sz + 1)) x z)) \<and>
           BlurHeightmap farr sz fsig0 junk = Inr out \<and>
           length out = (sz + 1) * (sz + 1) \<and>
           (\<forall>x \<le> sz. \<forall>y \<le> sz. out ! (x + y * (sz + 1)) =
              farr ! (x + y * (sz + 1)) * blur ! 0
              + (\<Sum>z = 1..nat (tr (\<bar>fsig0\<bar> * 3)). col_term sz blur ftmp' x y z))"
proof -
  let ?f = "\<bar>fsig0\<bar> * 3"
  let ?r = "nat (tr ?f)"
  let ?n = "(sz + 1) * (sz + 1)"
  have r: "?r \<le> sz" using tr_radius [of ?f sz] s1 by simp
  from blur_kernel_pos [OF s0] obtain blur where k: "blur_kernel ?f = Inr blur"
    and lb: "length blur = ?r + 1" and pos: "\<forall>z\<le>?r. 0 < blur ! z"
    by blast
  have lj: "length (map junk [0 ..< ?n]) = ?n" by simp
  from blur_row_pass_cells [OF lf r lb lj] obtain ftmp'
    where rp: "blur_row_pass sz blur farr ?r (map junk [0 ..< ?n]) = Inr ftmp'"
      and lt: "length ftmp' = ?n"
      and rc: "\<forall>y \<le> sz. \<forall>x \<le> sz. ftmp' ! (y * (sz + 1) + x) =
              map junk [0 ..< ?n] ! (y * (sz + 1) + x) * blur ! 0
              + (\<Sum>z = 1..?r. row_term sz blur farr (y * (sz + 1)) x z)"
    by blast
  have rc': "\<forall>y \<le> sz. \<forall>x \<le> sz. ftmp' ! (y * (sz + 1) + x) =
              junk (y * (sz + 1) + x) * blur ! 0
              + (\<Sum>z = 1..?r. row_term sz blur farr (y * (sz + 1)) x z)"
  proof (intro allI impI)
    fix y x assume "y \<le> sz" "x \<le> sz"
    then have "y * (sz + 1) + x < ?n" by (intro idx_less') auto
    then have "map junk [0 ..< ?n] ! (y * (sz + 1) + x) = junk (y * (sz + 1) + x)"
      by (simp del: upt_Suc mult_Suc_right add: nth_map_upt)
    with rc \<open>y \<le> sz\<close> \<open>x \<le> sz\<close>
    show "ftmp' ! (y * (sz + 1) + x) =
              junk (y * (sz + 1) + x) * blur ! 0
              + (\<Sum>z = 1..?r. row_term sz blur farr (y * (sz + 1)) x z)" by simp
  qed
  from blur_col_pass_cells [OF lt r lb lf] obtain out
    where cp: "blur_col_pass sz blur ftmp' ?r farr = Inr out"
      and lo: "length out = ?n"
      and cc: "\<forall>x \<le> sz. \<forall>y \<le> sz. out ! (x + y * (sz + 1)) =
              farr ! (x + y * (sz + 1)) * blur ! 0
              + (\<Sum>z = 1..?r. col_term sz blur ftmp' x y z)"
    by blast
  have sz: "\<not> (sz \<le> 0 \<or> ?f \<ge> real sz)" using s1 s0 by auto
  have "BlurHeightmap farr sz fsig0 junk = Inr out"
    unfolding BlurHeightmap_def Let_def ftmp_cells [OF small]
    using s0 sz k rp cp by simp
  with k lb pos rp lt rc' lo cc show ?thesis by blast
qed

text \<open>With a kernel of radius \<open>0\<close> the blur changes nothing, whatever \<open>ftmp\<close> held.\<close>

lemma BlurHeightmap_radius0:
  assumes s0: "\<bar>fsig0\<bar> * 3 \<noteq> 0" and s1: "\<bar>fsig0\<bar> * 3 < 1" and sz: "0 < sz"
    and lf: "length farr = (sz + 1) * (sz + 1)"
    and small: "(sz + 1) * (sz + 1) < (2::nat) ^ 30"
  shows "BlurHeightmap farr sz fsig0 junk = Inr farr"
proof -
  let ?f = "\<bar>fsig0\<bar> * 3"
  have r0: "nat (tr ?f) = 0" using s1 by (simp add: tr_nonneg)
  have s1': "?f < real sz" using s1 sz by simp
  from BlurHeightmap_active [OF s0 s1' lf small, of junk] obtain blur ftmp' out
    where k: "blur_kernel ?f = Inr blur"
      and b: "BlurHeightmap farr sz fsig0 junk = Inr out"
      and lo: "length out = (sz + 1) * (sz + 1)"
      and cc: "\<forall>x \<le> sz. \<forall>y \<le> sz. out ! (x + y * (sz + 1)) =
              farr ! (x + y * (sz + 1)) * blur ! 0
              + (\<Sum>z = 1..nat (tr ?f). col_term sz blur ftmp' x y z)"
    by blast
  have "blur = [1]" using k blur_kernel_radius0 [OF s0 r0] by simp
  then have cc': "\<forall>x \<le> sz. \<forall>y \<le> sz. out ! (x + y * (sz + 1)) = farr ! (x + y * (sz + 1))"
    using cc r0 by simp
  have "out = farr"
  proof (rule nth_equalityI)
    show "length out = length farr" using lo lf by simp
    fix j assume "j < length out"
    then have j: "j < (sz + 1) * (sz + 1)" using lo by simp
    have "j mod (sz + 1) \<le> sz" by (simp add: less_Suc_eq_le [symmetric])
    moreover have "j div (sz + 1) \<le> sz" using j by (simp add: less_mult_imp_div_less less_Suc_eq_le [symmetric])
    ultimately have "out ! (j mod (sz + 1) + j div (sz + 1) * (sz + 1))
        = farr ! (j mod (sz + 1) + j div (sz + 1) * (sz + 1))" using cc' by blast
    moreover have "j mod (sz + 1) + j div (sz + 1) * (sz + 1) = j"
      by (simp only: mod_div_mult_eq)
    ultimately show "out ! j = farr ! j" by (simp only:)
  qed
  with b show ?thesis by simp
qed

text \<open>With a kernel of radius at least \<open>1\<close> the result depends on what \<open>ftmp\<close> held.\<close>

lemma BlurHeightmap_depends:
  assumes s0: "1 \<le> \<bar>fsig0\<bar> * 3" and s1: "\<bar>fsig0\<bar> * 3 < real sz"
    and lf: "length farr = (sz + 1) * (sz + 1)"
    and small: "(sz + 1) * (sz + 1) < (2::nat) ^ 30"
  shows "BlurHeightmap farr sz fsig0 (\<lambda>i. 0) \<noteq> BlurHeightmap farr sz fsig0 (\<lambda>i. 1)"
proof -
  let ?f = "\<bar>fsig0\<bar> * 3"
  let ?r = "nat (tr ?f)"
  let ?S = "sz + 1"
  have nz: "?f \<noteq> 0" using s0 by auto
  have r1: "1 \<le> ?r"
  proof -
    have "1 \<le> \<lfloor>?f\<rfloor>" using s0 by linarith
    then have "1 \<le> nat \<lfloor>?f\<rfloor>" by linarith
    moreover have "tr ?f = \<lfloor>?f\<rfloor>" by (rule tr_nonneg) simp
    ultimately show ?thesis by simp
  qed
  have rs: "?r < sz" using tr_radius [of ?f sz] s1 by simp
  from BlurHeightmap_active [OF nz s1 lf small, of "\<lambda>i. 0"] obtain blur f0 out0
    where k0: "blur_kernel ?f = Inr blur" and pos: "\<forall>z\<le>?r. 0 < blur ! z"
      and c0: "\<forall>y \<le> sz. \<forall>x \<le> sz. f0 ! (y * ?S + x) =
              0 * blur ! 0 + (\<Sum>z = 1..?r. row_term sz blur farr (y * ?S) x z)"
      and b0: "BlurHeightmap farr sz fsig0 (\<lambda>i. 0) = Inr out0"
      and o0: "\<forall>x \<le> sz. \<forall>y \<le> sz. out0 ! (x + y * ?S) =
              farr ! (x + y * ?S) * blur ! 0 + (\<Sum>z = 1..?r. col_term sz blur f0 x y z)"
    by blast
  from BlurHeightmap_active [OF nz s1 lf small, of "\<lambda>i. 1"] obtain blur' f1 out1
    where k1: "blur_kernel ?f = Inr blur'"
      and c1': "\<forall>y \<le> sz. \<forall>x \<le> sz. f1 ! (y * ?S + x) =
              1 * blur' ! 0 + (\<Sum>z = 1..?r. row_term sz blur' farr (y * ?S) x z)"
      and b1: "BlurHeightmap farr sz fsig0 (\<lambda>i. 1) = Inr out1"
      and o1': "\<forall>x \<le> sz. \<forall>y \<le> sz. out1 ! (x + y * ?S) =
              farr ! (x + y * ?S) * blur' ! 0 + (\<Sum>z = 1..?r. col_term sz blur' f1 x y z)"
    by blast
  have bb: "blur' = blur" using k0 k1 by simp
  note c1 = c1' [unfolded bb] and o1 = o1' [unfolded bb]
  have d: "f1 ! (y * ?S + x) = f0 ! (y * ?S + x) + blur ! 0" if "y \<le> sz" "x \<le> sz" for x y
    using c0 c1 that by simp
  have ct: "col_term sz blur f1 0 0 z = col_term sz blur f0 0 0 z + 2 * blur ! 0 * blur ! z"
    if z: "1 \<le> z" "z \<le> ?r" for z
  proof -
    have a: "sz - z \<le> sz" "z \<le> sz" using z rs by auto
    have "f1 ! ((sz - z) * ?S + 0) = f0 ! ((sz - z) * ?S + 0) + blur ! 0" by (rule d) (use a in auto)
    moreover have "f1 ! (z * ?S + 0) = f0 ! (z * ?S + 0) + blur ! 0" by (rule d) (use a in auto)
    ultimately show ?thesis using z rs unfolding col_term_def by (simp add: algebra_simps)
  qed
  have "(\<Sum>z = 1..?r. col_term sz blur f1 0 0 z)
      = (\<Sum>z = 1..?r. col_term sz blur f0 0 0 z + 2 * blur ! 0 * blur ! z)"
    by (rule sum.cong) (use ct in auto)
  also have "\<dots> = (\<Sum>z = 1..?r. col_term sz blur f0 0 0 z) + (\<Sum>z = 1..?r. 2 * blur ! 0 * blur ! z)"
    by (simp add: sum.distrib)
  finally have e: "(\<Sum>z = 1..?r. col_term sz blur f1 0 0 z)
      = (\<Sum>z = 1..?r. col_term sz blur f0 0 0 z) + (\<Sum>z = 1..?r. 2 * blur ! 0 * blur ! z)" .
  have "0 < (\<Sum>z = 1..?r. 2 * blur ! 0 * blur ! z)"
  proof (rule sum_pos)
    show "finite {1..?r}" by simp
    show "{1..?r} \<noteq> {}" using r1 by simp
    fix z assume "z \<in> {1..?r}"
    then show "0 < 2 * blur ! 0 * blur ! z" using pos by simp
  qed
  with e have "(\<Sum>z = 1..?r. col_term sz blur f1 0 0 z) \<noteq> (\<Sum>z = 1..?r. col_term sz blur f0 0 0 z)"
    by simp
  moreover have "out0 ! (0 + 0 * ?S) = farr ! (0 + 0 * ?S) * blur ! 0 + (\<Sum>z = 1..?r. col_term sz blur f0 0 0 z)"
    using o0 by blast
  moreover have "out1 ! (0 + 0 * ?S) = farr ! (0 + 0 * ?S) * blur ! 0 + (\<Sum>z = 1..?r. col_term sz blur f1 0 0 z)"
    using o1 by blast
  ultimately have "out0 ! (0 + 0 * ?S) \<noteq> out1 ! (0 + 0 * ?S)" by simp
  then have "out0 \<noteq> out1" by auto
  with b0 b1 show ?thesis by simp
qed

text \<open>
  Claim C4, as amended. The blur returns the heightmap unchanged when \<open>sigma\<close> is zero,
  when the size is zero, or when \<open>3 * |sigma|\<close> is at least the size; every
  \<open>sigma \<ge> size\<close> is of the last kind. A negative \<open>sigma\<close> is not a no-op: line 469
  takes its absolute value.
\<close>

theorem BlurHeightmap_noop:
  assumes "fsig0 = 0 \<or> sz = 0 \<or> real sz \<le> 3 * \<bar>fsig0\<bar>"
  shows "BlurHeightmap farr sz fsig0 junk = Inr farr"
  using assms by (auto simp: BlurHeightmap_def Let_def)

theorem BlurHeightmap_noop_witness:
  "BlurHeightmap [1, 2, 3, 4] 1 5 (\<lambda>i. 0) = Inr [1, 2, 3, 4]"
  using BlurHeightmap_noop [of 5 1 "[1, 2, 3, 4]" "\<lambda>i. 0"] by simp

text \<open>
  Claim C4 as stated fails for a negative \<open>sigma\<close>: with size 2 and \<open>sigma = -1/3\<close> the
  kernel has radius 1, and a heightmap of zeros does not stay a heightmap of zeros when
  the memory of \<open>ftmp\<close> held ones.
\<close>

theorem BlurHeightmap_negative_sigma_counterexample:
  "BlurHeightmap (replicate 9 0) 2 (- 1 / 3) (\<lambda>i. 1) \<noteq> Inr (replicate 9 0)"
proof -
  have r: "nat (tr (\<bar>- 1 / 3 :: real\<bar> * 3)) = 1" by (simp add: tr_def)
  have "\<bar>- 1 / 3 :: real\<bar> * 3 \<noteq> 0" "\<bar>- 1 / 3 :: real\<bar> * 3 < real (2::nat)"
    "length (replicate 9 (0::real)) = (2 + 1) * (2 + 1)" "(2 + 1) * (2 + 1) < (2::nat) ^ 30"
    by simp_all
  from BlurHeightmap_active [OF this, of "\<lambda>i. 1"] obtain blur ftmp' out
    where pos: "\<forall>z\<le>1. 0 < blur ! z"
      and rc: "\<forall>y \<le> 2. \<forall>x \<le> 2. ftmp' ! (y * (2 + 1) + x) =
              1 * blur ! 0 + (\<Sum>z = 1..1. row_term 2 blur (replicate 9 0) (y * (2 + 1)) x z)"
      and b: "BlurHeightmap (replicate 9 0) 2 (- 1 / 3) (\<lambda>i. 1) = Inr out"
      and cc: "\<forall>x \<le> 2. \<forall>y \<le> 2. out ! (x + y * (2 + 1)) =
              replicate 9 0 ! (x + y * (2 + 1)) * blur ! 0
              + (\<Sum>z = 1..1. col_term 2 blur ftmp' x y z)"
    unfolding r by blast
  have "ftmp' ! (1 * (2 + 1) + 0) = 1 * blur ! 0 + (\<Sum>z = 1..1. row_term 2 blur (replicate 9 0) (1 * (2 + 1)) 0 z)"
    using rc by (meson one_le_numeral zero_le)
  then have f3: "ftmp' ! 3 = blur ! 0" by (simp add: row_term_def)
  have "out ! (0 + 0 * (2 + 1)) = replicate 9 0 ! (0 + 0 * (2 + 1)) * blur ! 0
              + (\<Sum>z = 1..1. col_term 2 blur ftmp' 0 0 z)"
    using cc by (meson zero_le)
  then have "out ! 0 = 2 * blur ! 0 * blur ! 1" using f3 by (simp add: col_term_def)
  moreover have "0 < blur ! 0" "0 < blur ! 1" using pos by simp_all
  then have "0 < 2 * blur ! 0 * blur ! 1" by simp
  ultimately have "out ! 0 \<noteq> 0" by linarith
  then have "out ! 0 \<noteq> replicate 9 (0::real) ! 0" by simp
  then have "out \<noteq> replicate 9 0" by metis
  with b show ?thesis by simp
qed

text \<open>
  Claim C10, as amended. For every \<open>sigma\<close> with \<open>0 < 3 * sigma < size\<close> the row pass
  leaves in every cell \<open>i\<close> of \<open>ftmp\<close> the value \<open>junk i * blur[0] + fsum\<close>: the centre
  weight multiplies what the memory of the cell held before, \<open>fsum\<close> is the sum over the
  neighbours in \<open>farr\<close>, and the cell of \<open>farr\<close> itself is not read. When moreover
  \<open>1 \<le> 3 * sigma\<close> (a kernel of radius at least 1) the blurred heightmap depends on
  what the memory held. \<open>(size + 1)^2 < 2^30\<close> is the range in which the size of the
  allocation does not wrap.
\<close>

theorem BlurHeightmap_uninitialised:
  assumes "0 < fsig0" and "3 * fsig0 < real sz"
    and "length farr = (sz + 1) * (sz + 1)" and "(sz + 1) * (sz + 1) < (2::nat) ^ 30"
  shows "\<exists>blur ftmp'.
           blur_kernel (\<bar>fsig0\<bar> * 3) = Inr blur \<and>
           blur_row_pass sz blur farr (nat (tr (\<bar>fsig0\<bar> * 3)))
             (map junk [0 ..< (sz + 1) * (sz + 1)]) = Inr ftmp' \<and>
           (\<forall>y \<le> sz. \<forall>x \<le> sz. \<exists>fsum.
              blur_row_fsum sz blur farr (nat (tr (\<bar>fsig0\<bar> * 3))) (y * (sz + 1)) x = Inr fsum \<and>
              ftmp' ! (y * (sz + 1) + x) = junk (y * (sz + 1) + x) * blur ! 0 + fsum) \<and>
           (1 \<le> 3 * fsig0 \<longrightarrow>
              BlurHeightmap farr sz fsig0 (\<lambda>i. 0) \<noteq> BlurHeightmap farr sz fsig0 (\<lambda>i. 1))"
proof -
  let ?f = "\<bar>fsig0\<bar> * 3"
  let ?r = "nat (tr ?f)"
  have s0: "?f \<noteq> 0" and s1: "?f < real sz" using assms(1,2) by auto
  from BlurHeightmap_active [OF s0 s1 assms(3,4), of junk] obtain blur ftmp'
    where k: "blur_kernel ?f = Inr blur" and lb: "length blur = ?r + 1"
      and rp: "blur_row_pass sz blur farr ?r (map junk [0 ..< (sz + 1) * (sz + 1)]) = Inr ftmp'"
      and rc: "\<forall>y \<le> sz. \<forall>x \<le> sz. ftmp' ! (y * (sz + 1) + x) =
              junk (y * (sz + 1) + x) * blur ! 0
              + (\<Sum>z = 1..?r. row_term sz blur farr (y * (sz + 1)) x z)"
    by blast
  have r: "?r \<le> sz" using tr_radius [of ?f sz] s1 by simp
  have "\<exists>fsum. blur_row_fsum sz blur farr ?r (y * (sz + 1)) x = Inr fsum \<and>
              ftmp' ! (y * (sz + 1) + x) = junk (y * (sz + 1) + x) * blur ! 0 + fsum"
    if "y \<le> sz" "x \<le> sz" for x y
    using blur_row_fsum_eq [OF assms(3) r lb that(2,1)] rc that by simp
  moreover have "BlurHeightmap farr sz fsig0 (\<lambda>i. 0) \<noteq> BlurHeightmap farr sz fsig0 (\<lambda>i. 1)"
    if "1 \<le> 3 * fsig0"
    by (rule BlurHeightmap_depends [OF _ s1 assms(3,4)]) (use that assms(1) in simp)
  ultimately show ?thesis using k rp by blast
qed

theorem BlurHeightmap_uninitialised_witness:
  "BlurHeightmap (replicate 25 0) 4 (1 / 2) (\<lambda>i. 0) \<noteq> BlurHeightmap (replicate 25 0) 4 (1 / 2) (\<lambda>i. 1)"
proof -
  have "(0::real) < 1 / 2" "3 * (1 / 2) < real (4::nat)"
    "length (replicate 25 (0::real)) = (4 + 1) * (4 + 1)" "(4 + 1) * (4 + 1) < (2::nat) ^ 30"
    by simp_all
  from BlurHeightmap_uninitialised [OF this, of "\<lambda>i. 0"] show ?thesis by auto
qed

text \<open>
  Claim C10 as stated fails for \<open>0 < 3 * sigma < 1\<close>: the kernel then has radius 0, the
  column pass reads nothing of \<open>ftmp\<close>, and the result is the input heightmap for every
  content of the memory.
\<close>

theorem BlurHeightmap_radius0_counterexample:
  "BlurHeightmap (map real [0 ..< 25]) 4 (1 / 10) = (\<lambda>junk. Inr (map real [0 ..< 25]))"
proof
  fix junk :: "nat \<Rightarrow> real"
  have "\<bar>1 / 10 :: real\<bar> * 3 \<noteq> 0" "\<bar>1 / 10 :: real\<bar> * 3 < 1" "0 < (4::nat)"
    "length (map real [0 ..< 25]) = (4 + 1) * (4 + 1)" "(4 + 1) * (4 + 1) < (2::nat) ^ 30"
    by simp_all
  from BlurHeightmap_radius0 [OF this]
  show "BlurHeightmap (map real [0 ..< 25]) 4 (1 / 10) junk = Inr (map real [0 ..< 25])" .
qed

section \<open>Rules for evaluating the model on numerals\<close>

lemma for_down_unfold:
  "for_down n body s =
     (if n = 0 then Inr s
      else case body n s of Inl e \<Rightarrow> Inl e | Inr s' \<Rightarrow> for_down (n - 1) body s')"
  by (cases n) (simp_all split: sum.splits)

lemma replicate_numeral: "replicate (numeral v) x = x # replicate (numeral v - 1) x"
  by (simp add: numeral_eq_Suc)

lemma list_update_Cons_numeral: "(x # xs)[numeral v := y] = x # xs[numeral v - 1 := y]"
  by (simp add: numeral_eq_Suc)

lemmas eval_simps =
  for_down_unfold replicate_numeral list_update_Cons_numeral
  LandscapeVBO_def MakeVBO_def landscape_indices_def landscape_heightmap_def MakeHeightmap_def
  BlurHeightmap_def height_range_def read_past_def corner_heights_def center_heights_def
  landscape_colors_def corner_colors_def corner_color_def center_colors_def center_color_def
  band_of_def band_sum.simps band_walk.simps ObjectVBO_def select_spots_def count_spots_def
  fill_spots_def pick_spots_def center_row_def MakeFacetTex_calls_def index_cell_def
  hm_steps.simps diamond_pass_def square_pass_def square_row_def diamond_cell_def square_cell_def
  for_stride.simps inb_def inbi_def frand_def Let_def bindf_def USE_ARBV_def DEF_NOBJ_def
  clr_R_def clr_G_def clr_B_def clr_A_def set_R_def set_G_def set_B_def set_A_def

section \<open>The format of the parameter file\<close>

lemma strstr_Some:
  "strstr s t = Some r \<Longrightarrow> suffix r s \<and> prefix t r"
proof (induction s)
  case Nil
  then show ?case by (simp split: if_splits)
next
  case (Cons c cs)
  show ?case
  proof (cases "prefix t (c # cs)")
    case True
    then show ?thesis using Cons.prems by simp
  next
    case False
    then have "strstr cs t = Some r" using Cons.prems by simp
    then have "suffix r cs \<and> prefix t r" by (rule Cons.IH)
    then show ?thesis by (auto intro: suffix_ConsI)
  qed
qed

text \<open>The text format is chosen only for a path that ends in \<open>.txt\<close>.\<close>

lemma text_mode_suffix:
  assumes "text_mode file"
  shows "suffix ''.txt'' file"
proof -
  from assms obtain rest where r: "strstr file ''.txt'' = Some rest" and l: "length rest = 4"
    by (auto simp: text_mode_def DEF_FEXT_def DEF_FEXL_def split: option.splits)
  from strstr_Some [OF r] have s: "suffix rest file" and p: "prefix ''.txt'' rest" by simp_all
  from p l have "rest = ''.txt''" by (auto simp: prefix_def)
  with s show ?thesis by simp
qed

text \<open>
  Claim C9 (the code at the failing input). The last four characters of the path
  \<open>a.txt.txt\<close> are \<open>.txt\<close>, but \<^verbatim>\<open>strstr\<close> finds the first \<open>.txt\<close>, whose rest
  \<open>.txt.txt\<close> has length 8: \<^verbatim>\<open>Serialize\<close> writes the binary format and
  \<^verbatim>\<open>Deserialize\<close> reads the binary format.
\<close>

theorem Serialize_txt_txt:
  "Serialize True ''a.txt.txt'' vobj g = Some (BinaryWire (m_seed vobj) (m_flgs vobj) (wire_fields g))
   \<and> Deserialize_mode True True ''a.txt.txt'' = Some False
   \<and> suffix ''.txt'' ''a.txt.txt''"
  by (simp add: Serialize_def Deserialize_mode_def text_mode_def DEF_FEXT_def DEF_FEXL_def suffix_def)

section \<open>Properties of LandscapeVBO\<close>

lemma LandscapeVBO_null_iff:
  "LandscapeVBO ndim flgs seed grid fhei wlvl lscp arb rand_of junk past = Inr None
     \<longleftrightarrow> ndim = 0 \<or> lscp = None \<or> grid \<le> 0"
  by (auto simp: LandscapeVBO_def Let_def bindf_def split: option.splits sum.splits)

text \<open>
  Claim C5, as amended. \<^verbatim>\<open>LandscapeVBO\<close> returns \<^verbatim>\<open>NULL\<close> exactly when \<open>ndim\<close> is
  zero, \<open>lscp\<close> is \<^verbatim>\<open>NULL\<close> or \<open>grid\<close> is not positive. It tests neither that the band
  table ends in a band of height zero nor that the heightmap has two different
  heights.
\<close>

theorem LandscapeVBO_rejects:
  "LandscapeVBO ndim flgs seed grid fhei wlvl lscp arb rand_of junk past = Inr None
     \<longleftrightarrow> ndim = 0 \<or> lscp = None \<or> grid \<le> 0"
  by (rule LandscapeVBO_null_iff)

theorem LandscapeVBO_rejects_witness:
  "LandscapeVBO 0 63 1 16 600 (- 150) (Some []) True (\<lambda>s i. 0) (\<lambda>i. 0) 0 = Inr None
   \<and> LandscapeVBO 1 63 1 16 600 (- 150) (Some []) True (\<lambda>s i. 0) (\<lambda>i. 0) 0 \<noteq> Inr None"
  using LandscapeVBO_rejects [of 0 63 1 16 600 "- 150" "Some []" True "\<lambda>s i. 0" "\<lambda>i. 0" 0]
    LandscapeVBO_rejects [of 1 63 1 16 600 "- 150" "Some []" True "\<lambda>s i. 0" "\<lambda>i. 0" 0]
  by simp

text \<open>
  Claim C5 as stated fails: a band table of one band of height 1 and no band of
  height zero is not rejected. The loop of line 934 reads the table past its end.
\<close>

theorem LandscapeVBO_no_sentinel_counterexample:
  "LandscapeVBO 1 63 1 16 600 (- 150) (Some [\<lparr>h_fhei = 1, h_fclr = 0xFF30A15D\<rparr>]) True
     (\<lambda>s i. 0) (\<lambda>i. 0) 0 = Inl OutOfBounds"
  by (simp add: eval_simps)

text \<open>
  Claim C2 (the code at the failing input). The heightmap of a landscape of size 8
  (lines 901-902), for one and the same sequence of random numbers, is not the same
  when the memory that \<^verbatim>\<open>malloc\<close> gives to \<open>ftmp\<close> holds zeros and when it holds ones.
\<close>

theorem landscape_heightmap_depends:
  "landscape_heightmap 8 rnd (\<lambda>i. 0) \<noteq> landscape_heightmap 8 rnd (\<lambda>i. 1)"
proof -
  have "(1::nat) \<le> 3" "(3::nat) \<le> 15" by simp_all
  from MakeHeightmap_wrapS [OF this, of 1 rnd 0] obtain farr cnt
    where m: "MakeHeightmap 8 1 rnd 0 = Inr (Some (farr, cnt))" and w: "wrapS 8 9 farr"
    by auto
  have l: "length farr = (8 + 1) * (8 + 1)" using w by (simp add: wrapS_def)
  have a: "\<bar>1.5 :: real\<bar> * 3 \<noteq> 0" "\<bar>1.5 :: real\<bar> * 3 < real (8::nat)"
    "1 \<le> \<bar>1.5 :: real\<bar> * 3" "(8 + 1) * (8 + 1) < (2::nat) ^ 30"
    by simp_all
  have "BlurHeightmap farr 8 1.5 (\<lambda>i. 0) \<noteq> BlurHeightmap farr 8 1.5 (\<lambda>i. 1)"
    by (rule BlurHeightmap_depends [OF a(3) a(2) l a(4)])
  moreover obtain o0 where "BlurHeightmap farr 8 1.5 (\<lambda>i. 0) = Inr o0"
    using BlurHeightmap_active [OF a(1) a(2) l a(4), of "\<lambda>i. 0"] by blast
  moreover obtain o1 where "BlurHeightmap farr 8 1.5 (\<lambda>i. 1) = Inr o1"
    using BlurHeightmap_active [OF a(1) a(2) l a(4), of "\<lambda>i. 1"] by blast
  ultimately show ?thesis using m by (simp add: landscape_heightmap_def bindf_def)
qed

theorem landscape_heightmap_depends_witness:
  "landscape_heightmap 8 (\<lambda>i. 0) (\<lambda>i. 0) \<noteq> landscape_heightmap 8 (\<lambda>i. 0) (\<lambda>i. 1)"
  by (rule landscape_heightmap_depends)

text \<open>
  The over-read of line 904 also reaches the result: the first value the loop reads is
  the one that follows the heightmap in memory.
\<close>

lemma height_range_past:
  "height_range [0, 1, 2, 3] 0 1 = Inr (0, 3)" "height_range [0, 1, 2, 3] 7 1 = Inr (0, 7)"
  by (simp_all add: height_range_def read_past_def for_down_unfold inb_def bindf_def)

section \<open>The counts of the mesh\<close>

lemma landscape_indices_cells:
  assumes L: "N * N \<le> length indx"
  shows "\<exists>indx'. landscape_indices N indx = Inr (indx', N * N) \<and> length indx' = length indx \<and>
           (\<forall>y<N. \<forall>x<N. indx' ! (y * N + x) = index_cell N (push_bit 1 (y * (N + 1)) + x))"
proof -
  let ?c = "\<lambda>y x. index_cell N (push_bit 1 (y * (N + 1)) + x)"
  let ?inner = "\<lambda>(x::nat) t. case t of (indx, i, dpos) \<Rightarrow>
                if inb indx [i] then Inr (indx[i := index_cell N dpos], i + 1, dpos + 1)
                else Inl OutOfBounds"
  let ?outer = "\<lambda>y (s :: FTRI list \<times> nat). bindf
          (for_stride 0 N 1 ?inner (fst s, snd s, push_bit 1 (y * (N + 1))))
          (\<lambda>t. case t of (indx, i, dpos) \<Rightarrow> Inr (indx, i))"
  let ?J = "\<lambda>y (s :: FTRI list \<times> nat). y \<le> N \<and> snd s = y * N \<and> length (fst s) = length indx \<and>
              (\<forall>y'<y. \<forall>x<N. fst s ! (y' * N + x) = ?c y' x)"
  have "\<exists>t j. for_stride 0 N 1 ?outer (indx, 0) = Inr t \<and> ?J j t \<and> N \<le> j"
  proof (rule for_stride_rule [where I = ?J])
    show "?J 0 (indx, 0)" by simp
    show "0 < (1::nat)" by simp
    fix y and s :: "FTRI list \<times> nat"
    assume J: "?J y s" and y: "y < N"
    let ?K = "\<lambda>x (t :: FTRI list \<times> nat \<times> nat). x \<le> N \<and> fst (snd t) = y * N + x \<and>
                snd (snd t) = push_bit 1 (y * (N + 1)) + x \<and> length (fst t) = length indx \<and>
                (\<forall>y'<y. \<forall>x'<N. fst t ! (y' * N + x') = ?c y' x') \<and>
                (\<forall>x'<x. fst t ! (y * N + x') = ?c y x')"
    have "\<exists>t j. for_stride 0 N 1 ?inner (fst s, snd s, push_bit 1 (y * (N + 1))) = Inr t
            \<and> ?K j t \<and> N \<le> j"
    proof (rule for_stride_rule [where I = ?K])
      show "?K 0 (fst s, snd s, push_bit 1 (y * (N + 1)))" using J by simp
      show "0 < (1::nat)" by simp
      fix x and t :: "FTRI list \<times> nat \<times> nat"
      assume K: "?K x t" and x: "x < N"
      obtain a i dpos where t: "t = (a, i, dpos)" by (cases t) auto
      have i: "i = y * N + x" and d: "dpos = push_bit 1 (y * (N + 1)) + x"
        and la: "length a = length indx" using K t by simp_all
      have "y * N + x < N * N" using idx_less' [OF x y] .
      then have ib: "i < length a" using L la i by simp
      have ne: "i \<noteq> y' * N + x'" if "y' < y" "x' < N" for y' x'
        using idx_eq_iff [of x' N x y' y] that x i by (auto simp: add.commute)
      have ne2: "i \<noteq> y * N + x'" if "x' < x" for x'
        using that i by simp
      have Knew: "?K (x + 1) (a[i := index_cell N dpos], i + 1, dpos + 1)"
      proof (intro conjI allI impI)
        show "x + 1 \<le> N" using x by simp
        show "fst (snd (a[i := index_cell N dpos], i + 1, dpos + 1)) = y * N + (x + 1)"
          using i by simp
        show "snd (snd (a[i := index_cell N dpos], i + 1, dpos + 1))
                = push_bit 1 (y * (N + 1)) + (x + 1)" using d by simp
        show "length (fst (a[i := index_cell N dpos], i + 1, dpos + 1)) = length indx"
          using la by simp
      next
        fix y' x' assume "y' < y" "x' < N"
        then show "fst (a[i := index_cell N dpos], i + 1, dpos + 1) ! (y' * N + x') = ?c y' x'"
          using K t ne [of y' x'] by (simp add: nth_list_update_neq)
      next
        fix x' assume x': "x' < x + 1"
        show "fst (a[i := index_cell N dpos], i + 1, dpos + 1) ! (y * N + x') = ?c y x'"
        proof (cases "x' = x")
          case True
          then show ?thesis using ib i d by simp
        next
          case False
          then have "x' < x" using x' by simp
          then show ?thesis using K t ne2 [of x'] by (simp add: nth_list_update_neq)
        qed
      qed
      have eq: "?inner x t = Inr (a[i := index_cell N dpos], i + 1, dpos + 1)"
        using ib t by (simp add: inb_def)
      from Knew eq show "\<exists>t'. ?inner x t = Inr t' \<and> ?K (x + 1) t'"
        by blast
    qed
    then obtain t j where r: "for_stride 0 N 1 ?inner (fst s, snd s, push_bit 1 (y * (N + 1))) = Inr t"
      and K: "?K j t" and j: "N \<le> j" by blast
    have jN: "j = N" using K j by simp
    obtain a i dpos where t: "t = (a, i, dpos)" by (cases t) auto
    have "?J (y + 1) (a, i)"
      using K jN t y by (auto simp: less_Suc_eq)
    then show "\<exists>t'. ?outer y s = Inr t' \<and> ?J (y + 1) t'"
      using r t by (simp add: bindf_def)
  qed
  then obtain t j where r: "for_stride 0 N 1 ?outer (indx, 0) = Inr t" and J: "?J j t" and j: "N \<le> j"
    by blast
  have jN: "j = N" using J j by simp
  obtain a i where t: "t = (a, i)" by (cases t) auto
  show ?thesis
    unfolding landscape_indices_def using r J jN t by auto
qed

lemma LandscapeVBO_fields:
  assumes "LandscapeVBO ndim0 flgs seed grid fhei wlvl lscp arb rand_of junk past = Inr (Some m)"
  shows "m_ndim m = word_of_nat (2 ^ unat ndim0)"
    and "m_ndot m = (word_of_nat (2 ^ unat ndim0) + 1)
                    * (word_of_nat (2 ^ unat ndim0) + word_of_nat (2 ^ unat ndim0) + 2)"
    and "m_npol m = 3 * 4 * word_of_nat (2 ^ unat ndim0) * word_of_nat (2 ^ unat ndim0)"
    and "\<exists>ix. landscape_indices (unat (word_of_nat (2 ^ unat ndim0) :: 32 word))
                 (replicate (1 + unat (drop_bit 1 ((word_of_nat (2 ^ unat ndim0) + 1 :: 32 word)
                    * (word_of_nat (2 ^ unat ndim0) + word_of_nat (2 ^ unat ndim0) + 2))))
                    (FTRI 0 0 0 0 0 0 0 0 0 0 0 0)) = Inr ix \<and> m_indx m = fst ix"
  using assms
  by (auto simp: LandscapeVBO_def Let_def bindf_def MakeVBO_def
           split: option.splits sum.splits if_splits)

lemma landscape_word_facts:
  fixes k :: nat
  assumes "k \<le> 14"
  shows "unat (word_of_nat k :: 32 word) = k"
    and "unat (2 ^ k :: 32 word) = 2 ^ k"
    and "unat (((2 ^ k :: 32 word) + 1) * (2 ^ k + 2 ^ k + 2)) = 2 * (2 ^ k + 1) ^ 2"
    and "unat (3 * 4 * (2 ^ k :: 32 word) * 2 ^ k) = 12 * (2 ^ k) ^ 2"
proof -
  have p: "(2::nat) ^ k \<le> 2 ^ 14" using assms by (intro power_increasing) auto
  show "unat (word_of_nat k :: 32 word) = k" using assms by (simp add: unat_of_nat)
  have w: "(2 ^ k :: 32 word) = of_nat (2 ^ k)" by simp
  show u: "unat (2 ^ k :: 32 word) = 2 ^ k"
    unfolding w unat_of_nat using p by simp
  have u1: "unat ((2 ^ k :: 32 word) + 1) = 2 ^ k + 1"
    using p by (simp add: unat_word_ariths u)
  have u2: "unat ((2 ^ k :: 32 word) + 2 ^ k + 2) = 2 ^ k + 2 ^ k + 2"
    using p by (simp add: unat_word_ariths u)
  have b: "((2::nat) ^ k + 1) * (2 ^ k + 2 ^ k + 2) \<le> (2 ^ 14 + 1) * (2 ^ 14 + 2 ^ 14 + 2)"
    using p by (intro mult_le_mono add_le_mono) auto
  have "unat (((2 ^ k :: 32 word) + 1) * (2 ^ k + 2 ^ k + 2)) = (2 ^ k + 1) * (2 ^ k + 2 ^ k + 2)"
    unfolding unat_word_ariths(2) [of "(2 ^ k :: 32 word) + 1"] u1 u2 using b by simp
  also have "\<dots> = 2 * (2 ^ k + 1) ^ 2" by (simp add: power2_eq_square algebra_simps)
  finally show "unat (((2 ^ k :: 32 word) + 1) * (2 ^ k + 2 ^ k + 2)) = 2 * (2 ^ k + 1) ^ 2" .
  have u3: "unat (3 * 4 * (2 ^ k :: 32 word)) = 12 * 2 ^ k"
  proof -
    have "unat (12 * (2 ^ k :: 32 word)) = 12 * 2 ^ k"
      unfolding unat_word_ariths(2) [of 12] u using p by simp
    then show ?thesis by simp
  qed
  have b2: "12 * (2::nat) ^ k * 2 ^ k \<le> 12 * 2 ^ 14 * 2 ^ 14"
    using p by (intro mult_le_mono) auto
  have "unat (3 * 4 * (2 ^ k :: 32 word) * 2 ^ k) = 12 * 2 ^ k * 2 ^ k"
    unfolding unat_word_ariths(2) [of "3 * 4 * (2 ^ k :: 32 word)"] u3 u using b2 by simp
  then show "unat (3 * 4 * (2 ^ k :: 32 word) * 2 ^ k) = 12 * (2 ^ k) ^ 2"
    by (simp add: power2_eq_square)
qed

text \<open>
  Claim C1, as amended. A mesh that \<^verbatim>\<open>LandscapeVBO\<close> returns for the size \<open>N = 2^k\<close>
  has \<open>ndot = (N + 1) * (2 * N + 2) = 2 * (N + 1)^2\<close> vertices (rows of \<open>N + 1\<close> corner
  vertices alternate with rows of \<open>N + 1\<close> cells for the centre vertices) and
  \<open>npol = 12 * N^2\<close> index slots, that is \<open>4 * N^2\<close> triangles: the index array holds
  \<open>N^2\<close> cells of twelve indices, one per square. \<open>k \<le> 14\<close> is the range in which the
  32-bit products \<open>ndot\<close> and \<open>npol\<close> do not wrap.
\<close>

theorem LandscapeVBO_counts:
  assumes k: "1 \<le> k" "k \<le> 14"
    and r: "LandscapeVBO (word_of_nat k) flgs seed grid fhei wlvl lscp arb rand_of junk past
              = Inr (Some m)"
  shows "unat (m_ndim m) = 2 ^ k \<and>
         unat (m_ndot m) = 2 * (2 ^ k + 1) ^ 2 \<and>
         unat (m_npol m) = 12 * (2 ^ k) ^ 2 \<and>
         (\<forall>y<2 ^ k. \<forall>x<2 ^ k.
            m_indx m ! (y * 2 ^ k + x) = index_cell (2 ^ k) (push_bit 1 (y * (2 ^ k + 1)) + x))"
proof -
  note w = landscape_word_facts [OF k(2)]
  have e: "(word_of_nat (2 ^ k) :: 32 word) = 2 ^ k" by simp
  note f = LandscapeVBO_fields [OF r, unfolded w e]
  let ?N = "(2::nat) ^ k"
  let ?L = "1 + unat (drop_bit 1 (((2 ^ k :: 32 word) + 1) * (2 ^ k + 2 ^ k + 2)))"
  from f(4) obtain ix where ix: "landscape_indices ?N (replicate ?L (FTRI 0 0 0 0 0 0 0 0 0 0 0 0)) = Inr ix"
    and mi: "m_indx m = fst ix" by blast
  have "?L = 1 + (?N + 1) ^ 2"
    unfolding unat_drop_bit_eq w by (simp add: drop_bit_Suc)
  then have "?N * ?N \<le> length (replicate ?L (FTRI 0 0 0 0 0 0 0 0 0 0 0 0))"
    by (simp add: power2_eq_square)
  from landscape_indices_cells [OF this] ix
  have "\<forall>y<?N. \<forall>x<?N. fst ix ! (y * ?N + x) = index_cell ?N (push_bit 1 (y * (?N + 1)) + x)"
    by auto
  then show ?thesis using f(1,2,3) w mi by simp
qed

text \<open>A run of the whole function, for the size 2.\<close>

lemma LandscapeVBO_example:
  "(case LandscapeVBO 1 63 1 16 600 (- 150)
       (Some [\<lparr>h_fhei = 8, h_fclr = 0xFF30A15D\<rparr>, \<lparr>h_fhei = 0, h_fclr = 0x80AC630D\<rparr>])
       True (\<lambda>s i. 0) (\<lambda>i. 0) 0 of
      Inr (Some m) \<Rightarrow> m_ndot m = 18 \<and> m_npol m = 48
    | _ \<Rightarrow> False)"
  by (simp add: eval_simps)

theorem LandscapeVBO_counts_witness:
  "\<exists>m. LandscapeVBO 1 63 1 16 600 (- 150)
       (Some [\<lparr>h_fhei = 8, h_fclr = 0xFF30A15D\<rparr>, \<lparr>h_fhei = 0, h_fclr = 0x80AC630D\<rparr>])
       True (\<lambda>s i. 0) (\<lambda>i. 0) 0 = Inr (Some m) \<and>
     unat (m_ndot m) = 18 \<and> unat (m_npol m) = 48 \<and>
     m_indx m ! 3 = FTRI 10 7 8 10 8 14 10 14 13 10 13 7"
proof -
  from LandscapeVBO_example obtain m where m: "LandscapeVBO 1 63 1 16 600 (- 150)
       (Some [\<lparr>h_fhei = 8, h_fclr = 0xFF30A15D\<rparr>, \<lparr>h_fhei = 0, h_fclr = 0x80AC630D\<rparr>])
       True (\<lambda>s i. 0) (\<lambda>i. 0) 0 = Inr (Some m)"
    by (auto split: sum.splits option.splits)
  have "(1::nat) \<le> 1" "(1::nat) \<le> 14" by simp_all
  from LandscapeVBO_counts [OF this, of 63 1 16 600 "- 150" _ True "\<lambda>s i. 0" "\<lambda>i. 0" 0 m] m
  have c: "unat (m_ndot m) = 2 * (2 ^ 1 + 1) ^ 2" "unat (m_npol m) = 12 * (2 ^ 1) ^ 2"
    "\<forall>y<2 ^ 1. \<forall>x<2 ^ 1.
        m_indx m ! (y * 2 ^ 1 + x) = index_cell (2 ^ 1) (push_bit 1 (y * (2 ^ 1 + 1)) + x)"
    by simp_all
  from c(3) have "m_indx m ! (1 * 2 ^ 1 + 1) = index_cell (2 ^ 1) (push_bit 1 (1 * (2 ^ 1 + 1)) + 1)"
    by (metis one_less_numeral_iff power_one_right semiring_norm(76))
  then have "m_indx m ! 3 = FTRI 10 7 8 10 8 14 10 14 13 10 13 7"
    by (simp add: index_cell_def)
  with m c(1,2) show ?thesis by simp
qed

text \<open>
  Claim C1 as stated fails: the mesh of size 2 has 18 vertices, not
  \<open>(2 + 1)^2 + 2^2 = 13\<close>.
\<close>

theorem LandscapeVBO_vertices_counterexample:
  "(case LandscapeVBO 1 63 1 16 600 (- 150)
       (Some [\<lparr>h_fhei = 8, h_fclr = 0xFF30A15D\<rparr>, \<lparr>h_fhei = 0, h_fclr = 0x80AC630D\<rparr>])
       True (\<lambda>s i. 0) (\<lambda>i. 0) 0 of
      Inr (Some m) \<Rightarrow> unat (m_ndot m) = 18 \<and> unat (m_ndot m) \<noteq> (2 + 1) ^ 2 + 2 ^ 2
    | _ \<Rightarrow> False)"
  using LandscapeVBO_example by (auto split: sum.splits option.splits)

section \<open>The colours of a landscape under water\<close>

text \<open>A counting loop keeps an invariant that every iteration keeps.\<close>

lemma for_stride_count:
  assumes init: "P 0 a"
    and step: "\<And>y a. y < n \<Longrightarrow> P y a \<Longrightarrow> \<exists>a'. body y a = Inr a' \<and> P (y + 1) a'"
  shows "\<exists>a'. for_stride 0 n 1 body a = Inr a' \<and> P n a'"
proof -
  have "\<exists>t j. for_stride 0 n 1 body a = Inr t \<and> (j \<le> n \<and> P j t) \<and> n \<le> j"
  proof (rule for_stride_rule [where I = "\<lambda>j t. j \<le> n \<and> P j t"])
    show "0 \<le> n \<and> P 0 a" using init by simp
    show "0 < (1::nat)" by simp
    fix j t assume "j \<le> n \<and> P j t" "j < n"
    then show "\<exists>t'. body j t = Inr t' \<and> (j + 1 \<le> n \<and> P (j + 1) t')"
      using step [of j t] by auto
  qed
  then obtain t j where r: "for_stride 0 n 1 body a = Inr t" and j: "j \<le> n" "P j t" "n \<le> j"
    by blast
  from j have "j = n" by simp
  with r j show ?thesis by blast
qed

lemma grid_less:
  fixes S :: nat
  assumes "c < S" "r < M"
  shows "r * S + c < M * S"
proof -
  have "r * S + c < (r + 1) * S" using assms by simp
  also have "\<dots> \<le> M * S" using assms by (intro mult_le_mono1) simp
  finally show ?thesis .
qed

lemma center_heights_flat:
  fixes vect :: "FVEC list"
  assumes lv: "length vect = (N + 1) * (2 * (N + 1))"
    and flat: "\<forall>r\<le>N. \<forall>c\<le>N. v_z (vect ! (r * (2 * (N + 1)) + c)) = w"
  shows "\<exists>vect'. center_heights N grid vect = Inr vect' \<and> length vect' = length vect \<and>
          (\<forall>r\<le>N. \<forall>c\<le>N. v_z (vect' ! (r * (2 * (N + 1)) + c)) = w) \<and>
          (\<forall>r<N. \<forall>c<N. v_z (vect' ! (r * (2 * (N + 1)) + (N + 1) + c)) = w)"
proof -
  define S where "S = 2 * (N + 1)"
  have pb: "\<And>y. push_bit 1 (y * (N + 1)) = y * S" by (simp add: S_def push_bit_eq_mult)
  let ?Q = "\<lambda>k j v. length v = (N + 1) * S \<and> (\<forall>r\<le>N. \<forall>c\<le>N. v_z (v ! (r * S + c)) = w) \<and>
              (\<forall>r<k. \<forall>c<N. v_z (v ! (r * S + (N + 1) + c)) = w) \<and>
              (\<forall>c<j. v_z (v ! (k * S + (N + 1) + c)) = w)"
  have "\<exists>a'. for_stride 0 N 1
          (\<lambda>y vect. bindf
          (for_stride 0 N 1
             (\<lambda>x t. case t of (vect, dpos) \<Rightarrow>
                if N + 1 \<le> dpos \<and> inb vect [dpos, dpos + N + 2] then
                  Inr (vect[dpos := \<lparr>v_x = grid * (real x + 0.5) - 0.5 * grid * real N,
                                      v_y = grid * (real y + 0.5) - 0.5 * grid * real N,
                                      v_z = 0.25 * (v_z (vect ! (dpos - N - 1))
                                                  + v_z (vect ! (dpos - N - 0))
                                                  + v_z (vect ! (dpos + N + 1))
                                                  + v_z (vect ! (dpos + N + 2)))\<rparr>],
                       dpos + 1)
                else Inl OutOfBounds)
             (vect, (N + 1) + y * S))
          (\<lambda>t. Inr (fst t))) vect = Inr a' \<and> ?Q N 0 a'"
  proof (rule for_stride_count [where P = "\<lambda>k. ?Q k 0"])
    show "?Q 0 0 vect" using lv flat by (simp add: S_def)
  next
    fix k and v :: "FVEC list" assume k: "k < N" and Q: "?Q k 0 v"
    let ?body = "\<lambda>x t. case t of (vect, dpos) \<Rightarrow>
                if N + 1 \<le> dpos \<and> inb vect [dpos, dpos + N + 2] then
                  Inr (vect[dpos := \<lparr>v_x = grid * (real x + 0.5) - 0.5 * grid * real N,
                                      v_y = grid * (real k + 0.5) - 0.5 * grid * real N,
                                      v_z = 0.25 * (v_z (vect ! (dpos - N - 1))
                                                  + v_z (vect ! (dpos - N - 0))
                                                  + v_z (vect ! (dpos + N + 1))
                                                  + v_z (vect ! (dpos + N + 2)))\<rparr>],
                       dpos + 1)
                else Inl OutOfBounds"
    have "\<exists>t. for_stride 0 N 1 ?body (v, (N + 1) + k * S) = Inr t \<and>
            (snd t = (N + 1) + k * S + N \<and> ?Q k N (fst t))"
    proof (rule for_stride_count [where P = "\<lambda>j t. snd t = (N + 1) + k * S + j \<and> ?Q k j (fst t)"])
      show "snd (v, (N + 1) + k * S) = (N + 1) + k * S + 0 \<and> ?Q k 0 (fst (v, (N + 1) + k * S))"
        using Q by simp
    next
      fix j and t :: "FVEC list \<times> nat"
      assume j: "j < N" and P: "snd t = (N + 1) + k * S + j \<and> ?Q k j (fst t)"
      obtain u d where t: "t = (u, d)" by (cases t)
      from P t have d: "d = (N + 1) + k * S + j" and Qu: "?Q k j u" by simp_all
      have lu: "length u = (N + 1) * S" using Qu by simp
      have i1: "d - N - 1 = k * S + j" using d by simp
      have i2: "d - N - 0 = k * S + (j + 1)" using d by simp
      have i3: "d + N + 1 = (k + 1) * S + j" using d by (simp add: S_def)
      have i4: "d + N + 2 = (k + 1) * S + (j + 1)" using d by (simp add: S_def)
      have dS: "d = k * S + (N + 1 + j)" using d by simp
      have b1: "d < length u" unfolding lu dS by (rule grid_less) (use j k in \<open>auto simp: S_def\<close>)
      have b2: "d + N + 2 < length u" unfolding lu i4
        by (rule grid_less) (use j k in \<open>auto simp: S_def\<close>)
      have C: "v_z (u ! (r * S + c)) = w" if "r \<le> N" "c \<le> N" for r c using Qu that by blast
      have z: "v_z (u ! (d - N - 1)) = w" "v_z (u ! (d - N - 0)) = w"
              "v_z (u ! (d + N + 1)) = w" "v_z (u ! (d + N + 2)) = w"
        unfolding i1 i2 i3 i4 by (rule C; use j k in simp)+
      let ?nv = "\<lparr>v_x = grid * (real j + 0.5) - 0.5 * grid * real N,
                  v_y = grid * (real k + 0.5) - 0.5 * grid * real N,
                  v_z = 0.25 * (v_z (u ! (d - N - 1)) + v_z (u ! (d - N - 0))
                              + v_z (u ! (d + N + 1)) + v_z (u ! (d + N + 2)))\<rparr>"
      have nv: "v_z ?nv = w" unfolding z by simp
      have g: "N + 1 \<le> d \<and> inb u [d, d + N + 2]" using b1 b2 d by (simp add: inb_def)
      have r: "?body j t = Inr (u[d := ?nv], d + 1)" unfolding t prod.case by (subst if_P [OF g]) (rule refl)
      have keep: "v_z (u[d := ?nv] ! i) = w" if "v_z (u ! i) = w" for i
        using that nv b1 by (cases "i = d") simp_all
      have "?Q k (j + 1) (u[d := ?nv])"
      proof (intro conjI allI impI)
        show "length (u[d := ?nv]) = (N + 1) * S" using lu by simp
      next
        fix r c assume "r \<le> N" "c \<le> N"
        then show "v_z (u[d := ?nv] ! (r * S + c)) = w" using Qu by (intro keep) blast
      next
        fix r c assume "r < k" "c < N"
        then show "v_z (u[d := ?nv] ! (r * S + (N + 1) + c)) = w" using Qu by (intro keep) blast
      next
        fix c assume c: "c < j + 1"
        show "v_z (u[d := ?nv] ! (k * S + (N + 1) + c)) = w"
        proof (cases "c = j")
          case True
          then have "k * S + (N + 1) + c = d" using d by simp
          then show ?thesis using nv b1 by simp
        next
          case False
          then have "c < j" using c by simp
          then show ?thesis using Qu by (intro keep) blast
        qed
      qed
      then show "\<exists>t'. ?body j t = Inr t' \<and>
          (snd t' = (N + 1) + k * S + (j + 1) \<and> ?Q k (j + 1) (fst t'))"
        unfolding r using d by simp
    qed
    then obtain t where rt: "for_stride 0 N 1 ?body (v, (N + 1) + k * S) = Inr t"
      and Qt: "?Q k N (fst t)" by blast
    have "?Q (k + 1) 0 (fst t)"
    proof (intro conjI allI impI)
      show "length (fst t) = (N + 1) * S" using Qt by simp
      show "\<And>r c. r \<le> N \<Longrightarrow> c \<le> N \<Longrightarrow> v_z (fst t ! (r * S + c)) = w" using Qt by blast
      show "\<And>c. c < 0 \<Longrightarrow> v_z (fst t ! ((k + 1) * S + (N + 1) + c)) = w" by simp
    next
      fix r c assume r: "r < k + 1" and c: "c < N"
      show "v_z (fst t ! (r * S + (N + 1) + c)) = w"
      proof (cases "r = k")
        case True then show ?thesis using Qt c by blast
      next
        case False then have "r < k" using r by simp
        then show ?thesis using Qt c by blast
      qed
    qed
    then show "\<exists>a'. bindf (for_stride 0 N 1 ?body (v, (N + 1) + k * S)) (\<lambda>t. Inr (fst t)) = Inr a' \<and>
                 ?Q (k + 1) 0 a'"
      unfolding rt bindf_def by simp
  qed
  then show ?thesis unfolding center_heights_def pb lv S_def by auto
qed

text \<open>The colour of the water, taken apart into \<open>wclr\<close> and \<open>wtrn\<close> and put together again.\<close>

lemma clr_A_less: "clr_A c < 256"
proof -
  have "(0xFF :: 32 word) = mask 8" by (simp add: mask_eq_exp_minus_1)
  then have "clr_A c = unat (take_bit 8 (drop_bit 24 c))"
    unfolding clr_A_def by (simp add: take_bit_eq_mask)
  also have "\<dots> < 2 ^ 8" unfolding unsigned_take_bit_eq by (rule take_bit_nat_less_exp)
  finally show ?thesis by simp
qed

lemma water_bits:
  fixes W :: "32 word"
  shows "(W AND 0xFFFFFF) OR push_bit 24 (drop_bit 24 W AND 0xFF) = W"
proof -
  have m: "(0xFFFFFF :: 32 word) = mask 24" "(0xFF :: 32 word) = mask 8"
    by (simp_all add: mask_eq_exp_minus_1)
  show ?thesis unfolding m
    by (rule bit_eqI) (auto simp: bit_simps)
qed

lemma water_or:
  fixes W :: "32 word"
  shows "(W AND 0xFFFFFF) OR (word_of_nat (clr_A W) * 0x1000000) = W"
proof -
  have "word_of_nat (clr_A W) * (0x1000000 :: 32 word) = push_bit 24 (drop_bit 24 W AND 0xFF)"
    unfolding clr_A_def by (simp add: push_bit_eq_mult)
  then show ?thesis using water_bits [of W] by simp
qed

lemma water_set_A:
  fixes W :: "32 word"
  shows "set_A (W AND 0xFFFFFF) (clr_A W) = W"
proof -
  have a: "clr_A W mod 256 = clr_A W" using clr_A_less [of W] by simp
  have n: "(W AND 0xFFFFFF) AND NOT 0xFF000000 = W AND 0xFFFFFF"
  proof -
    have m: "(0xFFFFFF :: 32 word) = mask 24" "(0xFF000000 :: 32 word) = push_bit 24 (mask 8)"
      by (simp_all add: mask_eq_exp_minus_1 push_bit_eq_mult)
    show ?thesis unfolding m by (rule bit_eqI) (auto simp: bit_simps)
  qed
  have "word_of_nat (clr_A W) = drop_bit 24 W AND 0xFF" unfolding clr_A_def by simp
  then show ?thesis unfolding set_A_def a n using water_bits [of W] by simp
qed

lemma band_sum_two:
  "band_sum [\<lparr>h_fhei = 8, h_fclr = A\<rparr>, \<lparr>h_fhei = 0, h_fclr = W\<rparr>] 0 0 = Inr (8, 1)"
  by (simp add: band_sum.simps inb_def)

lemma band_of_two:
  "band_of [\<lparr>h_fhei = 8, h_fclr = A\<rparr>, \<lparr>h_fhei = 0, h_fclr = W\<rparr>] 0 = Inr 0"
  by (simp add: band_of_def band_walk.simps inb_def bindf_def)

lemma corner_color_water:
  fixes vect :: "FVEC list" and clrs :: "FCLR list"
  assumes N: "1 \<le> N" and S: "S = 2 * (N + 1)"
    and lv: "length vect = (N + 1) * S" and lc: "length clrs = (N + 1) * S"
    and corners: "\<And>r c. r \<le> N \<Longrightarrow> c \<le> N \<Longrightarrow> v_z (vect ! (r * S + c)) = wlvl"
    and centers: "\<And>r c. r < N \<Longrightarrow> c < N \<Longrightarrow> v_z (vect ! (r * S + (N + 1) + c)) = wlvl"
    and nz: "0.5 * fhei - wlvl \<noteq> 0"
    and b: "band_of lscp 0 = Inr i0"
    and x: "x \<le> N" and y: "y \<le> N"
  shows "corner_color N fhei wlvl lscp fmax wclr wtrn vect y (y * S) x clrs
           = Inr (clrs[y * S + x := wclr OR (word_of_nat wtrn * 0x1000000)])"
proof -
  define xl where "xl = (if x > 0 then x - 1 else N - 1)"
  define xh where "xh = (if x < N then x else 0)"
  define yl where "yl = (if y > 0 then y * S - (N + 1) else (N + 1) + push_bit 1 ((N - 1) * (N + 1)))"
  define yh where "yh = (if y < N then y * S + (N + 1) else (N + 1))"
  define rl where "rl = (if y > 0 then y - 1 else N - 1)"
  define rh where "rh = (if y < N then y else 0)"
  have xs: "xl < N" "xh < N" using N x by (auto simp: xl_def xh_def)
  have rs: "rl < N" "rh < N" using N y by (auto simp: rl_def rh_def)
  have yl: "yl = rl * S + (N + 1)"
  proof (cases "y > 0")
    case True
    then obtain y' where y': "y = Suc y'" by (cases y) auto
    have "Suc y' * S - (N + 1) = y' * S + (N + 1)" unfolding S by simp
    then show ?thesis unfolding yl_def rl_def using True y' by simp
  next
    case False
    have "push_bit 1 ((N - 1) * (N + 1)) = (N - 1) * S" by (simp add: S push_bit_eq_mult)
    then show ?thesis unfolding yl_def rl_def using False by simp
  qed
  have yh: "yh = rh * S + (N + 1)" unfolding yh_def rh_def by simp
  have ctr: "v_z (vect ! (c + (r * S + (N + 1)))) = wlvl \<and> c + (r * S + (N + 1)) < length vect"
    if "r < N" "c < N" for r c
  proof -
    have e: "c + (r * S + (N + 1)) = r * S + (N + 1) + c" by simp
    have e2: "r * S + (N + 1) + c = r * S + (N + 1 + c)" by simp
    have "r * S + (N + 1 + c) < (N + 1) * S" by (rule grid_less) (use that S in auto)
    then show ?thesis unfolding e lv using centers [OF that] e2 by simp
  qed
  have z4: "v_z (vect ! (xl + yl)) = wlvl" "v_z (vect ! (xl + yh)) = wlvl"
           "v_z (vect ! (xh + yl)) = wlvl" "v_z (vect ! (xh + yh)) = wlvl"
    unfolding yl yh using ctr xs rs by blast+
  have b4: "inb vect [xl + yl, xl + yh, xh + yl, xh + yh]"
    unfolding yl yh inb_def using ctr xs rs by simp
  have b0: "y * S + x < (N + 1) * S" by (rule grid_less) (use x y S in auto)
  have i0: "inb vect [y * S + x]" "inb clrs [y * S + x]" using b0 lv lc by (simp_all add: inb_def)
  have z0: "v_z (vect ! (y * S + x)) = wlvl" by (rule corners [OF y x])
  have nf: "y > 0 \<Longrightarrow> N + 1 \<le> y * S" using S by (cases y) auto
  have ixl: "(if x > 0 then int x - 1 else int N - 1) = int xl"
    unfolding xl_def using N by (auto simp: of_nat_diff)
  have ixh: "(if x < N then int x else 0) = int xh" unfolding xh_def by simp
  have iyl: "(if y > 0 then int (y * S) - (int N + 1)
              else (int N + 1) + push_bit 1 ((int N - 1) * (int N + 1))) = int yl"
  proof (cases "y > 0")
    case True
    then show ?thesis unfolding yl_def using nf by (simp add: of_nat_diff)
  next
    case False
    have "int (N - 1) = int N - 1" using N by (simp add: of_nat_diff)
    then have "int ((N - 1) * (N + 1)) = (int N - 1) * (int N + 1)"
      unfolding of_nat_mult by simp
    then have "push_bit 1 ((int N - 1) * (int N + 1)) = int (push_bit 1 ((N - 1) * (N + 1)))"
      unfolding push_bit_of_nat by simp
    then show ?thesis unfolding yl_def using False by simp
  qed
  have iyh: "(if y < N then int (y * S) + (int N + 1) else int N + 1) = int yh"
    unfolding yh_def by simp
  have s4: "int xl + int yl = int (xl + yl)" "int xl + int yh = int (xl + yh)"
           "int xh + int yl = int (xh + yl)" "int xh + int yh = int (xh + yh)"
    by simp_all
  have b4': "inbi vect (int (xl + yl))" "inbi vect (int (xl + yh))"
            "inbi vect (int (xh + yl))" "inbi vect (int (xh + yh))"
  proof -
    have I: "inbi vect (int k)" if "k < length vect" for k
      unfolding inbi_def nat_int using that by simp
    have n: "xl + yl < length vect" "xl + yh < length vect" "xh + yl < length vect"
            "xh + yh < length vect"
      using b4 unfolding inb_def by simp_all
    show "inbi vect (int (xl + yl))" "inbi vect (int (xl + yh))"
         "inbi vect (int (xh + yl))" "inbi vect (int (xh + yh))"
      by (rule I, rule n)+
  qed
  show ?thesis
    unfolding corner_color_def Let_def ixl ixh iyl iyh s4 nat_int
    using i0 z0 nz b z4 b4' by (simp add: bindf_def)
qed

lemma corner_colors_water:
  fixes vect :: "FVEC list" and clrs :: "FCLR list"
  assumes N: "1 \<le> N" and S: "S = 2 * (N + 1)"
    and lv: "length vect = (N + 1) * S" and lc: "length clrs = (N + 1) * S"
    and corners: "\<And>r c. r \<le> N \<Longrightarrow> c \<le> N \<Longrightarrow> v_z (vect ! (r * S + c)) = wlvl"
    and centers: "\<And>r c. r < N \<Longrightarrow> c < N \<Longrightarrow> v_z (vect ! (r * S + (N + 1) + c)) = wlvl"
    and nz: "0.5 * fhei - wlvl \<noteq> 0"
    and b: "band_of lscp 0 = Inr i0"
  shows "\<exists>clrs'. corner_colors N fhei wlvl lscp fmax wclr wtrn vect clrs = Inr clrs' \<and>
           length clrs' = (N + 1) * S \<and>
           (\<forall>r\<le>N. \<forall>c\<le>N. clrs' ! (r * S + c) = wclr OR (word_of_nat wtrn * 0x1000000))"
proof -
  have pb: "\<And>y. push_bit 1 (y * (N + 1)) = y * S" by (simp add: S push_bit_eq_mult)
  let ?Wc = "wclr OR (word_of_nat wtrn * 0x1000000)"
  have "\<exists>a'. for_stride 0 (N + 1) 1 (\<lambda>p. for_stride 0 (N + 1) 1
            (\<lambda>i. corner_color N fhei wlvl lscp fmax wclr wtrn vect p (p * S) i)) clrs = Inr a' \<and>
          length a' = (N + 1) * S \<and>
          (\<forall>p<N + 1. \<forall>i<N + 1. a' ! (p * S + i) = (\<lambda>p i v. ?Wc) p i (clrs ! (p * S + i))) \<and>
          (\<forall>j<(N + 1) * S. (\<forall>p<N + 1. \<forall>i<N + 1. p * S + i \<noteq> j) \<longrightarrow> a' ! j = clrs ! j)"
  proof (rule for_count_map2 [where idx = "\<lambda>p i. p * S + i" and g = "\<lambda>p i v. ?Wc", OF _ _ lc])
    fix p i p' i' assume "p < N + 1" "i < N + 1" "p' < N + 1" "i' < N + 1" "p * S + i = p' * S + i'"
    moreover have "i < S" "i' < S" using calculation S by auto
    ultimately show "p = p' \<and> i = i'" using idx_eq_iff' [of i S i' p p'] by simp
  next
    fix p i and a :: "FCLR list"
    assume p: "p < N + 1" and i: "i < N + 1" and la: "length a = (N + 1) * S"
    have "p * S + i < (N + 1) * S" by (rule grid_less) (use p i S in auto)
    moreover have "corner_color N fhei wlvl lscp fmax wclr wtrn vect p (p * S) i a
                     = Inr (a[p * S + i := ?Wc])"
      by (rule corner_color_water [OF N S lv la corners centers nz b]) (use p i in auto)
    ultimately show "p * S + i < (N + 1) * S \<and>
        corner_color N fhei wlvl lscp fmax wclr wtrn vect p (p * S) i a = Inr (a[p * S + i := ?Wc])"
      by blast
  qed
  then show ?thesis unfolding corner_colors_def pb by (auto simp: less_Suc_eq_le)
qed

text \<open>
  At \<open>ndim = 0\<close> the \<^verbatim>\<open>UINT\<close> \<open>ndim - 1\<close> wraps: \<open>xl\<close> and \<open>yl\<close> are \<open>-1\<close> and line 954 reads
  before the array.
\<close>

lemma corner_color_size_zero:
  assumes "inb vect [dpos]" "inb clrs [dpos]" "0.5 * fhei - wlvl \<noteq> 0"
    and "band_of lscp (fmax * (v_z (vect ! dpos) - wlvl) / (0.5 * fhei - wlvl)) = Inr i"
    and "v_z (vect ! dpos) = wlvl"
  shows "corner_color 0 fhei wlvl lscp fmax wclr wtrn vect 0 dpos 0 clrs = Inl OutOfBounds"
  using assms by (simp add: corner_color_def inbi_def bindf_def)

text \<open>
  The colour of a centre vertex: \<^verbatim>\<open>center_color\<close> writes the cell \<open>dpos + x + (ndim + 1)\<close> only,
  and the colour of the water when the four corners around a true centre at the level
  of the water carry its transparency.
\<close>

lemma center_color_cell:
  fixes vect :: "FVEC list" and clrs :: "FCLR list"
  assumes S: "S = 2 * (N + 1)"
    and lv: "length vect = (N + 1) * S" and lc: "length clrs = (N + 1) * S"
    and x: "x \<le> N" and y: "y \<le> N"
  shows "\<exists>v. center_color N wlvl wclr wtrn vect y (y * S) x clrs = Inr (clrs[y * S + x + (N + 1) := v]) \<and>
           (x < N \<longrightarrow> y < N \<longrightarrow> v_z (vect ! (y * S + x + (N + 1))) = wlvl \<longrightarrow>
            clr_A (clrs ! (x + y * S)) = wtrn \<longrightarrow> clr_A (clrs ! (x + (y * S + S))) = wtrn \<longrightarrow>
            clr_A (clrs ! (x + 1 + y * S)) = wtrn \<longrightarrow> clr_A (clrs ! (x + 1 + (y * S + S))) = wtrn \<longrightarrow>
            v = set_A wclr wtrn)"
proof -
  define xh where "xh = (if x < N then x + 1 else 0)"
  define yh where "yh = (if y < N then y * S + push_bit 1 (N + 1) else 0)"
  define c where "c = y * S + x + (N + 1)"
  have pS: "push_bit 1 (N + 1) = S" by (simp add: S push_bit_eq_mult)
  have xh: "xh \<le> N" using x by (simp add: xh_def)
  obtain rh where rh: "yh = rh * S" "rh \<le> N"
  proof (cases "y < N")
    case True
    then have "yh = (y + 1) * S" "y + 1 \<le> N" unfolding yh_def pS by simp_all
    then show ?thesis using that by blast
  next
    case False
    then have "yh = 0 * S" by (simp add: yh_def)
    then show ?thesis using that by blast
  qed
  have crn: "a + r * S < (N + 1) * S \<and> a + r * S \<noteq> c" if "a \<le> N" "r \<le> N" for a r
  proof -
    have e: "a + r * S = r * S + a" by simp
    have ec: "c = y * S + (x + (N + 1))" by (simp add: c_def)
    have "r * S + a < (N + 1) * S" by (rule grid_less) (use that S in auto)
    moreover have "r * S + a \<noteq> y * S + (x + (N + 1))"
      using idx_eq_iff' [of a S "x + (N + 1)" r y] that x S by auto
    ultimately show ?thesis unfolding e ec by simp
  qed
  have bc: "c < (N + 1) * S"
  proof -
    have ec: "c = y * S + (x + (N + 1))" by (simp add: c_def)
    show ?thesis unfolding ec by (rule grid_less) (use x y S in auto)
  qed
  have b: "x + y * S < length clrs" "x + yh < length clrs" "xh + y * S < length clrs"
          "xh + yh < length clrs" "c < length clrs" "c < length vect"
    unfolding lc lv rh using crn x y xh rh bc by simp_all
  have ne: "x + y * S \<noteq> c" "x + yh \<noteq> c" "xh + y * S \<noteq> c" "xh + yh \<noteq> c"
    unfolding rh using crn x y xh rh by simp_all
  have ne': "c \<noteq> x + y * S" "c \<noteq> x + yh" "c \<noteq> xh + y * S" "c \<noteq> xh + yh"
    using ne by simp_all
  have g: "\<not> (\<not> inb clrs [x + y * S, x + yh, xh + y * S, xh + yh, c] \<or> \<not> inb vect [c])"
    using b by (simp add: inb_def)
  have tr: "x < N \<Longrightarrow> xh = x + 1" "y < N \<Longrightarrow> yh = y * S + S"
    unfolding xh_def yh_def pS by simp_all
  define c1 where "c1 = clrs[c := set_R (clrs ! c)
                       (drop_bit 2 (clr_R (clrs ! (x + y * S)) + clr_R (clrs ! (x + yh))
                                  + clr_R (clrs ! (xh + y * S)) + clr_R (clrs ! (xh + yh))))]"
  define c2 where "c2 = c1[c := set_G (c1 ! c)
                       (drop_bit 2 (clr_G (c1 ! (x + y * S)) + clr_G (c1 ! (x + yh))
                                  + clr_G (c1 ! (xh + y * S)) + clr_G (c1 ! (xh + yh))))]"
  define c3 where "c3 = c2[c := set_B (c2 ! c)
                       (drop_bit 2 (clr_B (c2 ! (x + y * S)) + clr_B (c2 ! (x + yh))
                                  + clr_B (c2 ! (xh + y * S)) + clr_B (c2 ! (xh + yh))))]"
  define c4 where "c4 = c3[c := set_A (c3 ! c) 255]"
  have E: "center_color N wlvl wclr wtrn vect y (y * S) x clrs =
      (if \<not> inb clrs [x + y * S, x + yh, xh + y * S, xh + yh, c] \<or> \<not> inb vect [c] then Inl OutOfBounds
       else if v_z (vect ! c) = wlvl then
          let i = ((if clr_A (c4 ! (x + y * S)) = wtrn then 0 else 1)
                 + (if clr_A (c4 ! (x + yh)) = wtrn then 0 else 1)
                 + (if clr_A (c4 ! (xh + y * S)) = wtrn then 0 else 1)
                 + (if clr_A (c4 ! (xh + yh)) = wtrn then 0 else 1)) * (255 - wtrn);
              c5 = (if i = 0 then c4[c := wclr] else c4)
          in Inr (c5[c := set_A (c5 ! c) (wtrn + drop_bit 2 i)])
        else Inr c4)"
    unfolding center_color_def c4_def c3_def c2_def c1_def c_def xh_def yh_def Let_def ..
  obtain v1 where o1: "c1 = clrs[c := v1]" unfolding c1_def by blast
  obtain v2 where o2: "c2 = clrs[c := v2]" unfolding c2_def o1 list_update_overwrite by blast
  obtain v3 where o3: "c3 = clrs[c := v3]" unfolding c3_def o2 list_update_overwrite by blast
  obtain v4 where o4: "c4 = clrs[c := v4]" unfolding c4_def o3 list_update_overwrite by blast
  have rd: "c4 ! (x + y * S) = clrs ! (x + y * S)" "c4 ! (x + yh) = clrs ! (x + yh)"
           "c4 ! (xh + y * S) = clrs ! (xh + y * S)" "c4 ! (xh + yh) = clrs ! (xh + yh)"
    unfolding o4 using ne' by simp_all
  show ?thesis
  proof (cases "v_z (vect ! c) = wlvl")
    case False
    then show ?thesis unfolding E c_def [symmetric] if_not_P [OF g] o4 by auto
  next
    case True
    define i where "i = ((if clr_A (c4 ! (x + y * S)) = wtrn then 0 else 1)
                 + (if clr_A (c4 ! (x + yh)) = wtrn then 0 else 1)
                 + (if clr_A (c4 ! (xh + y * S)) = wtrn then 0 else 1)
                 + (if clr_A (c4 ! (xh + yh)) = wtrn then 0 else (1::nat))) * (255 - wtrn)"
    have R: "center_color N wlvl wclr wtrn vect y (y * S) x clrs =
               Inr ((if i = 0 then c4[c := wclr] else c4)
                      [c := set_A ((if i = 0 then c4[c := wclr] else c4) ! c) (wtrn + drop_bit 2 i)])"
      unfolding E if_not_P [OF g] if_P [OF True] Let_def i_def ..
    have sh: "(if i = 0 then c4[c := wclr] else c4)
                 [c := set_A ((if i = 0 then c4[c := wclr] else c4) ! c) (wtrn + drop_bit 2 i)]
              = clrs[c := set_A ((if i = 0 then c4[c := wclr] else c4) ! c) (wtrn + drop_bit 2 i)]"
      unfolding o4 by simp
    have val: "set_A ((if i = 0 then c4[c := wclr] else c4) ! c) (wtrn + drop_bit 2 i) = set_A wclr wtrn"
      if "x < N" "y < N" "clr_A (clrs ! (x + y * S)) = wtrn" "clr_A (clrs ! (x + (y * S + S))) = wtrn"
         "clr_A (clrs ! (x + 1 + y * S)) = wtrn" "clr_A (clrs ! (x + 1 + (y * S + S))) = wtrn"
    proof -
      have "i = 0" unfolding i_def rd using that tr by simp
      then show ?thesis unfolding o4 using b by simp
    qed
    show ?thesis unfolding R sh c_def [symmetric] using val by blast
  qed
qed

lemma center_colors_water:
  fixes vect :: "FVEC list" and clrs :: "FCLR list"
  assumes S: "S = 2 * (N + 1)"
    and lv: "length vect = (N + 1) * S" and lc: "length clrs = (N + 1) * S"
    and centers: "\<And>r c. r < N \<Longrightarrow> c < N \<Longrightarrow> v_z (vect ! (r * S + (N + 1) + c)) = wlvl"
    and crn: "\<And>r c. r \<le> N \<Longrightarrow> c \<le> N \<Longrightarrow> clrs ! (r * S + c) = Wc"
    and al: "clr_A Wc = wtrn"
  shows "\<exists>clrs'. center_colors N wlvl wclr wtrn vect clrs = Inr clrs' \<and>
           length clrs' = (N + 1) * S \<and>
           (\<forall>r\<le>N. \<forall>c\<le>N. clrs' ! (r * S + c) = Wc) \<and>
           (\<forall>r<N. \<forall>c<N. clrs' ! (r * S + (N + 1) + c) = set_A wclr wtrn)"
proof -
  have pb: "\<And>y. push_bit 1 (y * (N + 1)) = y * S" by (simp add: S push_bit_eq_mult)
  let ?W = "set_A wclr wtrn"
  let ?Q = "\<lambda>k j a. length a = (N + 1) * S \<and> (\<forall>r\<le>N. \<forall>c\<le>N. a ! (r * S + c) = Wc) \<and>
              (\<forall>r<k. \<forall>c<N. r < N \<longrightarrow> a ! (r * S + (N + 1) + c) = ?W) \<and>
              (\<forall>c<j. c < N \<longrightarrow> k < N \<longrightarrow> a ! (k * S + (N + 1) + c) = ?W)"
  have "\<exists>a'. for_stride 0 (N + 1) 1
          (\<lambda>y. for_stride 0 (N + 1) 1 (center_color N wlvl wclr wtrn vect y (y * S))) clrs = Inr a' \<and>
          ?Q (N + 1) 0 a'"
  proof (rule for_stride_count [where P = "\<lambda>k. ?Q k 0"])
    show "?Q 0 0 clrs" using lc crn by simp
  next
    fix k and a :: "FCLR list" assume k: "k < N + 1" and Q: "?Q k 0 a"
    have "\<exists>a'. for_stride 0 (N + 1) 1 (center_color N wlvl wclr wtrn vect k (k * S)) a = Inr a' \<and>
            ?Q k (N + 1) a'"
    proof (rule for_stride_count [where P = "?Q k"])
      show "?Q k 0 a" by (rule Q)
    next
      fix j and u :: "FCLR list" assume j: "j < N + 1" and Qu: "?Q k j u"
      have lu: "length u = (N + 1) * S" using Qu by simp
      have C: "u ! (r * S + c) = Wc" if "r \<le> N" "c \<le> N" for r c using Qu that by blast
      let ?c = "k * S + j + (N + 1)"
      have ec: "?c = k * S + (j + (N + 1))" by simp
      have bc: "?c < length u" unfolding lu ec by (rule grid_less) (use j k S in auto)
      from center_color_cell [OF S lv lu, of j k wlvl wclr wtrn] j k
      obtain v where r: "center_color N wlvl wclr wtrn vect k (k * S) j u = Inr (u[?c := v])"
        and val: "j < N \<Longrightarrow> k < N \<Longrightarrow> v_z (vect ! ?c) = wlvl \<Longrightarrow>
            clr_A (u ! (j + k * S)) = wtrn \<Longrightarrow> clr_A (u ! (j + (k * S + S))) = wtrn \<Longrightarrow>
            clr_A (u ! (j + 1 + k * S)) = wtrn \<Longrightarrow> clr_A (u ! (j + 1 + (k * S + S))) = wtrn \<Longrightarrow>
            v = ?W"
        by (auto simp: less_Suc_eq_le)
      have vW: "v = ?W" if jk: "j < N" "k < N"
      proof (rule val [OF jk])
        have e0: "?c = k * S + (N + 1) + j" by simp
        show "v_z (vect ! ?c) = wlvl" unfolding e0 by (rule centers [OF jk(2) jk(1)])
        have e: "j + k * S = k * S + j" "j + (k * S + S) = (k + 1) * S + j"
                "j + 1 + k * S = k * S + (j + 1)" "j + 1 + (k * S + S) = (k + 1) * S + (j + 1)"
          by simp_all
        show "clr_A (u ! (j + k * S)) = wtrn" unfolding e using C [of k j] jk al by simp
        show "clr_A (u ! (j + (k * S + S))) = wtrn" unfolding e using C [of "k + 1" j] jk al by simp
        show "clr_A (u ! (j + 1 + k * S)) = wtrn" unfolding e using C [of k "j + 1"] jk al by simp
        show "clr_A (u ! (j + 1 + (k * S + S))) = wtrn"
          unfolding e using C [of "k + 1" "j + 1"] jk al by simp
      qed
      have P1: "u ! (r * S + (N + 1) + c) = ?W" if "r < k" "c < N" "r < N" for r c
        using Qu that by blast
      have P2: "u ! (k * S + (N + 1) + c) = ?W" if "c < j" "c < N" "k < N" for c
        using Qu that by blast
      have other1: "u[?c := v] ! (r * S + c) = u ! (r * S + c)" if "c \<le> N" for r c
      proof -
        have "r * S + c \<noteq> k * S + (j + (N + 1))"
          using idx_eq_iff' [of c S "j + (N + 1)" r k] that j S by auto
        then show ?thesis unfolding ec by simp
      qed
      have other2: "u[?c := v] ! (r * S + (N + 1) + c) = u ! (r * S + (N + 1) + c)"
        if "c < N" "r \<noteq> k \<or> c \<noteq> j" for r c
      proof -
        have e: "r * S + (N + 1) + c = r * S + (N + 1 + c)" by simp
        have "r * S + (N + 1 + c) \<noteq> k * S + (j + (N + 1))"
          using idx_eq_iff' [of "N + 1 + c" S "j + (N + 1)" r k] that j S by auto
        then show ?thesis unfolding ec e by simp
      qed
      have "?Q k (j + 1) (u[?c := v])"
      proof (intro conjI allI impI)
        show "length (u[?c := v]) = (N + 1) * S" using lu by simp
      next
        fix r c assume rc: "r \<le> N" "c \<le> N"
        show "u[?c := v] ! (r * S + c) = Wc" unfolding other1 [OF rc(2)] by (rule C [OF rc])
      next
        fix r c assume rc: "r < k" "c < N" "r < N"
        have "r \<noteq> k \<or> c \<noteq> j" using rc by simp
        from other2 [OF rc(2) this] show "u[?c := v] ! (r * S + (N + 1) + c) = ?W"
          using P1 [OF rc] by (simp only:)
      next
        fix c assume c: "c < j + 1" "c < N" "k < N"
        show "u[?c := v] ! (k * S + (N + 1) + c) = ?W"
        proof (cases "c = j")
          case True
          then have e': "k * S + (N + 1) + c = ?c" by simp
          have "v = ?W" using vW c True by simp
          then show ?thesis unfolding e' using bc by simp
        next
          case False
          then have cj: "c < j" using c by simp
          have "k \<noteq> k \<or> c \<noteq> j" using False by simp
          from other2 [OF c(2) this] show ?thesis using P2 [OF cj c(2) c(3)] by (simp only:)
        qed
      qed
      then show "\<exists>a'. center_color N wlvl wclr wtrn vect k (k * S) j u = Inr a' \<and> ?Q k (j + 1) a'"
        unfolding r by blast
    qed
    then obtain a' where ra: "for_stride 0 (N + 1) 1 (center_color N wlvl wclr wtrn vect k (k * S)) a = Inr a'"
      and Qa: "?Q k (N + 1) a'" by blast
    have "?Q (k + 1) 0 a'"
    proof (intro conjI allI impI)
      show "length a' = (N + 1) * S" using Qa by simp
      show "\<And>r c. r \<le> N \<Longrightarrow> c \<le> N \<Longrightarrow> a' ! (r * S + c) = Wc" using Qa by blast
      show "\<And>c. c < 0 \<Longrightarrow> a' ! ((k + 1) * S + (N + 1) + c) = ?W" by simp
    next
      fix r c assume rc: "r < k + 1" "c < N" "r < N"
      show "a' ! (r * S + (N + 1) + c) = ?W"
      proof (cases "r = k")
        case True then show ?thesis using Qa rc by auto
      next
        case False then have "r < k" using rc by simp
        then show ?thesis using Qa rc by blast
      qed
    qed
    then show "\<exists>a''. for_stride 0 (N + 1) 1 (center_color N wlvl wclr wtrn vect k (k * S)) a = Inr a'' \<and>
                 ?Q (k + 1) 0 a''"
      using ra by blast
  qed
  then show ?thesis unfolding center_colors_def pb by auto
qed

text \<open>
  What lines 921-991 compute when every corner vertex that lines 909-918 left in \<open>vect1\<close> is
  at the level of the water and the band table is \<open>[{8, A}, {0, Water}]\<close> with \<open>Water\<close> of
  alpha 128: the two passes return, every corner vertex \<open>(x, y)\<close>, \<open>x, y \<le> N\<close>, has exactly the
  colour \<open>Water\<close>, and so has the centre vertex of every cell \<open>(x, y)\<close>, \<open>x, y < N\<close>.
  \<open>wlvl \<noteq> fhei / 2\<close> keeps line 943 from dividing by zero. These are the colours in the
  arrays when line 1059 calls \<^verbatim>\<open>ObjectVBO\<close>.
\<close>

lemma water_build_colors:
  fixes vect1 :: "FVEC list" and clrs :: "FCLR list"
  assumes N: "1 \<le> N"
    and lv: "length vect1 = (N + 1) * (N + N + 2)" and lc: "length clrs = (N + 1) * (N + N + 2)"
    and flat: "\<forall>y\<le>N. \<forall>x\<le>N. v_z (vect1 ! (push_bit 1 (y * (N + 1)) + x)) = wlvl"
    and nz: "wlvl \<noteq> 0.5 * fhei"
    and alpha: "clr_A Water = 128"
  shows "\<exists>vect clrs'. center_heights N grid vect1 = Inr vect \<and>
           landscape_colors N fhei wlvl [\<lparr>h_fhei = 8, h_fclr = A\<rparr>, \<lparr>h_fhei = 0, h_fclr = Water\<rparr>]
             vect clrs = Inr clrs' \<and>
           (\<forall>y\<le>N. \<forall>x\<le>N. clrs' ! (push_bit 1 (y * (N + 1)) + x) = Water \<and>
                             clr_A (clrs' ! (push_bit 1 (y * (N + 1)) + x)) = 128) \<and>
           (\<forall>y<N. \<forall>x<N. clrs' ! (center_row N y + x) = Water \<and>
                             clr_A (clrs' ! (center_row N y + x)) = 128)"
proof -
  define S where "S = 2 * (N + 1)"
  have pb: "\<And>y. push_bit 1 (y * (N + 1)) = y * S" by (simp add: S_def push_bit_eq_mult)
  have SS: "N + N + 2 = S" by (simp add: S_def)
  let ?lscp = "[\<lparr>h_fhei = 8, h_fclr = A\<rparr>, \<lparr>h_fhei = 0, h_fclr = Water\<rparr>]"
  let ?wclr = "Water AND 0xFFFFFF"
  let ?wtrn = "clr_A Water"
  have lv1: "length vect1 = (N + 1) * S" using lv unfolding SS .
  have flat1: "\<forall>r\<le>N. \<forall>c\<le>N. v_z (vect1 ! (r * S + c)) = wlvl" using flat unfolding pb .
  from center_heights_flat [OF lv1 [unfolded S_def] flat1 [unfolded S_def], of grid]
  obtain vect where ch: "center_heights N grid vect1 = Inr vect" and lv0: "length vect = length vect1"
    and corners0: "\<forall>r\<le>N. \<forall>c\<le>N. v_z (vect ! (r * S + c)) = wlvl"
    and centers0: "\<forall>r<N. \<forall>c<N. v_z (vect ! (r * S + (N + 1) + c)) = wlvl"
    unfolding S_def [symmetric] by blast
  have lv': "length vect = (N + 1) * S" using lv0 lv1 by simp
  have corners: "\<And>r c. r \<le> N \<Longrightarrow> c \<le> N \<Longrightarrow> v_z (vect ! (r * S + c)) = wlvl"
    using corners0 by blast
  have centers: "\<And>r c. r < N \<Longrightarrow> c < N \<Longrightarrow> v_z (vect ! (r * S + (N + 1) + c)) = wlvl"
    using centers0 by blast
  have nz': "0.5 * fhei - wlvl \<noteq> 0" using nz by simp
  have lc2: "length clrs = (N + 1) * S" using lc unfolding SS .
  have "\<exists>clrs1. corner_colors N fhei wlvl ?lscp 8 ?wclr ?wtrn vect clrs = Inr clrs1 \<and>
           length clrs1 = (N + 1) * S \<and>
           (\<forall>r\<le>N. \<forall>c\<le>N. clrs1 ! (r * S + c) = ?wclr OR (word_of_nat ?wtrn * 0x1000000))"
    by (rule corner_colors_water [OF N S_def lv' lc2 _ _ nz' band_of_two])
       (rule corners centers, assumption+)+
  then obtain clrs1 where cc: "corner_colors N fhei wlvl ?lscp 8 ?wclr ?wtrn vect clrs = Inr clrs1"
    and l1: "length clrs1 = (N + 1) * S"
    and c1: "\<And>r c. r \<le> N \<Longrightarrow> c \<le> N \<Longrightarrow> clrs1 ! (r * S + c) = Water"
    unfolding water_or by blast
  have "\<exists>clrs'. center_colors N wlvl ?wclr ?wtrn vect clrs1 = Inr clrs' \<and>
           length clrs' = (N + 1) * S \<and>
           (\<forall>r\<le>N. \<forall>c\<le>N. clrs' ! (r * S + c) = Water) \<and>
           (\<forall>r<N. \<forall>c<N. clrs' ! (r * S + (N + 1) + c) = set_A ?wclr ?wtrn)"
    by (rule center_colors_water [OF S_def lv' l1 _ _ refl]) (rule centers c1, assumption+)+
  then obtain clrs' where ce: "center_colors N wlvl ?wclr ?wtrn vect clrs1 = Inr clrs'"
    and c2': "\<forall>r\<le>N. \<forall>c\<le>N. clrs' ! (r * S + c) = Water"
    and c3': "\<forall>r<N. \<forall>c<N. clrs' ! (r * S + (N + 1) + c) = set_A ?wclr ?wtrn"
    by (elim exE conjE)
  have c2: "\<And>r c. r \<le> N \<Longrightarrow> c \<le> N \<Longrightarrow> clrs' ! (r * S + c) = Water" using c2' by blast
  have c3: "\<And>r c. r < N \<Longrightarrow> c < N \<Longrightarrow> clrs' ! (r * S + (N + 1) + c) = Water"
    using c3' unfolding water_set_A by blast
  have lc': "landscape_colors N fhei wlvl ?lscp vect clrs = Inr clrs'"
    unfolding landscape_colors_def band_sum_two bindf_def sum.case prod.case Let_def
    using cc ce by simp
  have cr: "center_row N y + x = y * S + (N + 1) + x" for y x
    unfolding center_row_def pb by simp
  have q1: "\<forall>y\<le>N. \<forall>x\<le>N. clrs' ! (y * S + x) = Water \<and> clr_A (clrs' ! (y * S + x)) = 128"
    using c2 alpha by simp
  have q2: "\<forall>y<N. \<forall>x<N. clrs' ! (y * S + (N + 1) + x) = Water \<and>
                          clr_A (clrs' ! (y * S + (N + 1) + x)) = 128"
    using c3 alpha by simp
  show ?thesis unfolding pb cr
    by (rule exI [of _ vect], rule exI [of _ clrs']) (intro conjI ch lc' q1 q2)
qed

text \<open>The same at the size 1: the four corners and the centre of the one cell.\<close>

lemma water_build_colors_example:
  "\<exists>vect clrs'.
     center_heights 2 16 (replicate 18 \<lparr>v_x = 0, v_y = 0, v_z = 400\<rparr>) = Inr vect \<and>
     landscape_colors 2 600 400 [\<lparr>h_fhei = 8, h_fclr = 0xFF30A15D\<rparr>, \<lparr>h_fhei = 0, h_fclr = 0x80AC630D\<rparr>]
       vect (replicate 18 0) = Inr clrs' \<and>
     clrs' ! 0 = 0x80AC630D \<and> clrs' ! 8 = 0x80AC630D \<and> clrs' ! 14 = 0x80AC630D \<and>
     clrs' ! 3 = 0x80AC630D \<and> clrs' ! 10 = 0x80AC630D \<and> clr_A (clrs' ! 10) = 128"
proof -
  let ?v = "\<lparr>v_x = 0, v_y = 0, v_z = 400\<rparr>"
  let ?lscp = "[\<lparr>h_fhei = 8, h_fclr = 0xFF30A15D\<rparr>, \<lparr>h_fhei = 0, h_fclr = 0x80AC630D\<rparr>]"
  have f: "\<forall>y\<le>2. \<forall>x\<le>2. v_z (replicate 18 ?v ! (push_bit 1 (y * (2 + 1)) + x)) = 400"
  proof (intro allI impI)
    fix y x :: nat assume "y \<le> 2" "x \<le> 2"
    then have "push_bit 1 (y * (2 + 1)) + x < 18" by (simp add: push_bit_eq_mult)
    then show "v_z (replicate 18 ?v ! (push_bit 1 (y * (2 + 1)) + x)) = 400" by simp
  qed
  have a: "clr_A 0x80AC630D = 128" by (simp add: clr_A_def drop_bit_eq_div)
  have "\<exists>vect clrs'. center_heights 2 16 (replicate 18 ?v) = Inr vect \<and>
           landscape_colors 2 600 400 ?lscp vect (replicate 18 0) = Inr clrs' \<and>
           (\<forall>y\<le>2. \<forall>x\<le>2. clrs' ! (push_bit 1 (y * (2 + 1)) + x) = 0x80AC630D \<and>
                             clr_A (clrs' ! (push_bit 1 (y * (2 + 1)) + x)) = 128) \<and>
           (\<forall>y<2. \<forall>x<2. clrs' ! (center_row 2 y + x) = 0x80AC630D \<and>
                             clr_A (clrs' ! (center_row 2 y + x)) = 128)"
    by (rule water_build_colors [OF _ _ _ f _ a]) simp_all
  then obtain vect clrs' where
    ch: "center_heights 2 16 (replicate 18 ?v) = Inr vect" and
    lc: "landscape_colors 2 600 400 ?lscp vect (replicate 18 0) = Inr clrs'" and
    c: "\<And>y x. y \<le> 2 \<Longrightarrow> x \<le> 2 \<Longrightarrow> clrs' ! (push_bit 1 (y * (2 + 1)) + x) = 0x80AC630D" and
    m: "\<And>y x. y < 2 \<Longrightarrow> x < 2 \<Longrightarrow> clrs' ! (center_row 2 y + x) = 0x80AC630D \<and>
                             clr_A (clrs' ! (center_row 2 y + x)) = 128"
    by blast
  have e: "push_bit 1 (0 * (2 + 1)) + 0 = (0::nat)" "push_bit 1 (1 * (2 + 1)) + 2 = (8::nat)"
    "push_bit 1 (2 * (2 + 1)) + 2 = (14::nat)" "center_row 2 0 + 0 = 3" "center_row 2 1 + 1 = 10"
    by (simp_all add: center_row_def push_bit_eq_mult)
  have "clrs' ! (push_bit 1 (0 * (2 + 1)) + 0) = 0x80AC630D" by (rule c) simp_all
  moreover have "clrs' ! (push_bit 1 (1 * (2 + 1)) + 2) = 0x80AC630D" by (rule c) simp_all
  moreover have "clrs' ! (push_bit 1 (2 * (2 + 1)) + 2) = 0x80AC630D" by (rule c) simp_all
  moreover have "clrs' ! (center_row 2 0 + 0) = 0x80AC630D \<and> clr_A (clrs' ! (center_row 2 0 + 0)) = 128"
    by (rule m) simp_all
  moreover have "clrs' ! (center_row 2 1 + 1) = 0x80AC630D \<and> clr_A (clrs' ! (center_row 2 1 + 1)) = 128"
    by (rule m) simp_all
  ultimately show ?thesis unfolding e using ch lc by blast
qed

section \<open>ObjectVBO: the choice of the spots\<close>

text \<open>
  The two scans of \<^verbatim>\<open>ObjectVBO\<close> are loops over \<open>center_indices\<close>: the first counts the
  candidates, the second writes them into \<open>farr\<close> from its end.
\<close>

lemma for_stride_fold:
  "for_stride i n 1 body s = fold_fault body [i ..< n] s"
proof (induction "n - i" arbitrary: i s)
  case 0
  then show ?case by (subst for_stride.simps) simp
next
  case (Suc k)
  then have i: "i < n" and k: "k = n - (i + 1)" by simp_all
  have u: "[i ..< n] = i # [i + 1 ..< n]" using i by (simp add: upt_conv_Cons)
  have IH: "for_stride (Suc i) n (Suc 0) body t = fold_fault body [Suc i ..< n] t" for t
    using Suc.hyps(1) [OF k, of t] by simp
  show ?case unfolding u
    by (subst for_stride.simps) (simp add: i IH split: sum.splits)
qed

lemma fold_fault_append:
  "fold_fault body (xs @ ys) s =
     (case fold_fault body xs s of Inl e \<Rightarrow> Inl e | Inr s' \<Rightarrow> fold_fault body ys s')"
  by (induction xs arbitrary: s) (simp_all split: sum.splits)

lemma fold_fault_concat:
  "fold_fault (\<lambda>xs. fold_fault body xs) xss s = fold_fault body (concat xss) s"
  by (induction xss arbitrary: s) (simp_all add: fold_fault_append split: sum.splits)

lemma scan_center_indices:
  "for_stride 0 ndim 1
     (\<lambda>y. for_stride (center_row ndim y) (ndim + center_row ndim y) 1 body) s
   = fold_fault body (center_indices ndim) s"
proof -
  have "for_stride 0 ndim 1 (\<lambda>y. for_stride (center_row ndim y) (ndim + center_row ndim y) 1 body) s
        = fold_fault (\<lambda>y. fold_fault body [center_row ndim y ..< ndim + center_row ndim y]) [0 ..< ndim] s"
    unfolding for_stride_fold ..
  also have "\<dots> = fold_fault (\<lambda>xs. fold_fault body xs)
                      (map (\<lambda>y. [center_row ndim y ..< ndim + center_row ndim y]) [0 ..< ndim]) s"
  proof -
    have "fold_fault (\<lambda>y. f (g y)) ys t = fold_fault f (map g ys) t" for f :: "'b \<Rightarrow> 's \<Rightarrow> fault + 's"
      and g :: "nat \<Rightarrow> 'b" and ys t
      by (induction ys arbitrary: t) (simp_all split: sum.splits)
    then show ?thesis .
  qed
  also have "\<dots> = fold_fault body (center_indices ndim) s"
    unfolding center_indices_def by (rule fold_fault_concat)
  finally show ?thesis .
qed

lemma count_spots_eq:
  assumes "\<forall>x\<in>set (center_indices ndim). x < length vect"
  shows "count_spots ndim wlvl vect = Inr (length (candidates ndim wlvl vect))"
proof -
  have "fold_fault (\<lambda>x xh. if inb vect [x] then Inr (if v_z (vect ! x) > wlvl then xh + 1 else xh)
                            else Inl OutOfBounds) xs acc
        = Inr (acc + length (filter (\<lambda>x. v_z (vect ! x) > wlvl) xs))"
    if "\<forall>x\<in>set xs. x < length vect" for xs and acc :: nat
    using that by (induction xs arbitrary: acc) (simp_all add: inb_def)
  from this [OF assms, of 0] show ?thesis
    unfolding count_spots_def scan_center_indices candidates_def by simp
qed

lemma fill_spots_eq:
  assumes b: "\<forall>x\<in>set (center_indices ndim). x < length vect"
  shows "fill_spots ndim wlvl vect (replicate (length (candidates ndim wlvl vect)) 0)
           (length (candidates ndim wlvl vect))
         = Inr (rev (candidates ndim wlvl vect), 0)"
proof -
  let ?P = "\<lambda>x. v_z (vect ! x) > wlvl"
  let ?body = "\<lambda>x s. if inb vect [x] then
                    (if v_z (vect ! x) > wlvl then
                       (if 0 < snd s \<and> inb (fst s) [snd s - 1]
                        then Inr ((fst s)[snd s - 1 := x], snd s - 1)
                        else Inl OutOfBounds)
                     else Inr s)
                  else Inl OutOfBounds"
  have gen: "\<exists>farr'. fold_fault ?body xs (farr, yh) = Inr (farr', yh - length (filter ?P xs)) \<and>
               length farr' = length farr \<and>
               drop (yh - length (filter ?P xs)) farr' = rev (filter ?P xs) @ drop yh farr"
    if "\<forall>x\<in>set xs. x < length vect" "length (filter ?P xs) \<le> yh" "yh \<le> length farr"
    for xs and farr :: "nat list" and yh
    using that
  proof (induction xs arbitrary: farr yh)
    case Nil
    then show ?case by simp
  next
    case (Cons x xs)
    show ?case
    proof (cases "?P x")
      case False
      then show ?thesis using Cons.IH [of yh farr] Cons.prems by (simp add: inb_def)
    next
      case True
      then have yh: "0 < yh" "yh - 1 < length farr" "length (filter ?P xs) \<le> yh - 1"
        using Cons.prems by auto
      from Cons.IH [of "yh - 1" "farr[yh - 1 := x]"] Cons.prems yh
      obtain farr' where r: "fold_fault ?body xs (farr[yh - 1 := x], yh - 1)
              = Inr (farr', yh - 1 - length (filter ?P xs))"
        and l: "length farr' = length farr"
        and d: "drop (yh - 1 - length (filter ?P xs)) farr'
                  = rev (filter ?P xs) @ drop (yh - 1) (farr[yh - 1 := x])"
        by auto
      have "drop (yh - 1) (farr[yh - 1 := x]) = x # drop yh farr"
        using yh by (metis Cons_nth_drop_Suc Suc_pred' drop_update_cancel length_list_update
            lessI nth_list_update_eq)
      with d have d': "drop (yh - 1 - length (filter ?P xs)) farr' = rev (filter ?P (x # xs)) @ drop yh farr"
        using True by simp
      have e: "yh - length (filter ?P (x # xs)) = yh - 1 - length (filter ?P xs)" using True by simp
      show ?thesis unfolding e using r l d' True yh Cons.prems by (simp add: inb_def)
    qed
  qed
  from gen [OF b, of "length (candidates ndim wlvl vect)" "replicate (length (candidates ndim wlvl vect)) 0"]
  show ?thesis unfolding fill_spots_def scan_center_indices candidates_def by auto
qed

text \<open>The rows of centre vertices do not meet: no vertex is scanned twice.\<close>

lemma center_row_next:
  assumes "y < K"
  shows "N + center_row N y \<le> center_row N K"
proof -
  have "(y + 1) * (N + 1) \<le> K * (N + 1)" using assms by (intro mult_le_mono1) simp
  then have "y * (N + 1) + (N + 1) \<le> K * (N + 1)" by simp
  then show ?thesis unfolding center_row_def push_bit_eq_mult by simp
qed

lemma rows_mem:
  "x \<in> set (concat (map (\<lambda>y. [center_row N y ..< N + center_row N y]) [0 ..< K]))
     \<longleftrightarrow> (\<exists>y<K. center_row N y \<le> x \<and> x < N + center_row N y)"
  by auto

lemma rows_distinct:
  "distinct (concat (map (\<lambda>y. [center_row N y ..< N + center_row N y]) [0 ..< K]))"
proof (induction K)
  case 0
  show ?case by simp
next
  case (Suc K)
  let ?rows = "concat (map (\<lambda>y. [center_row N y ..< N + center_row N y]) [0 ..< K])"
  have e: "concat (map (\<lambda>y. [center_row N y ..< N + center_row N y]) [0 ..< Suc K])
             = ?rows @ [center_row N K ..< N + center_row N K]"
    by simp
  have "set ?rows \<inter> set [center_row N K ..< N + center_row N K] = {}"
  proof (rule ccontr)
    assume "set ?rows \<inter> set [center_row N K ..< N + center_row N K] \<noteq> {}"
    then obtain x where x: "x \<in> set ?rows" and k': "x \<in> set [center_row N K ..< N + center_row N K]"
      by blast
    from k' have k: "center_row N K \<le> x" by simp
    from x obtain y where y: "y < K" "x < N + center_row N y" unfolding rows_mem by blast
    from center_row_next [OF y(1), of N] y(2) k show False by simp
  qed
  then show ?case unfolding e using Suc.IH by simp
qed

lemma distinct_center_indices: "distinct (center_indices N)"
  unfolding center_indices_def by (rule rows_distinct)

lemma distinct_candidates: "distinct (candidates N wlvl vect)"
  unfolding candidates_def by (rule distinct_filter) (rule distinct_center_indices)

text \<open>
  One iteration of lines 734-738 moves one element of the first \<open>xh\<close> cells of \<open>farr\<close> to
  \<open>fobj\<close>: what was chosen together with what is left is what \<open>farr\<close> held.
\<close>

lemma swap_remove_mset:
  assumes x: "x < xh" and xh: "xh \<le> length farr"
  shows "add_mset (farr ! x) (mset (take (xh - 1) (farr[x := farr ! (xh - 1)]))) = mset (take xh farr)"
proof -
  have t: "take xh farr = take (xh - 1) farr @ [farr ! (xh - 1)]"
    using take_Suc_conv_app_nth [of "xh - 1" farr] x xh by simp
  show ?thesis
  proof (cases "x = xh - 1")
    case True
    then show ?thesis unfolding t by simp
  next
    case False
    then have lt: "x < xh - 1" using x by simp
    then have l: "x < length (take (xh - 1) farr)" using xh by simp
    have n: "take (xh - 1) farr ! x = farr ! x" using lt by simp
    have m: "farr ! x \<in># mset (take (xh - 1) farr)" using nth_mem [OF l] n by simp
    have "mset (take (xh - 1) (farr[x := farr ! (xh - 1)]))
            = add_mset (farr ! (xh - 1)) (mset (take (xh - 1) farr) - {#farr ! x#})"
      unfolding take_update_swap mset_update [OF l] n ..
    then show ?thesis unfolding t using m by simp
  qed
qed

lemma pick_spots_inv:
  assumes x0: "xl0 \<le> length farr0" and l0: "length fobj0 = xl0 + 1"
  shows "\<exists>fobj farr xh. pick_spots rnd xl0 (fobj0, farr0, length farr0, cnt) = Inr (fobj, farr, xh, cnt + xl0) \<and>
           length fobj = xl0 + 1 \<and> fobj ! 0 = fobj0 ! 0 \<and>
           mset (drop 1 fobj) + mset (take xh farr) = mset farr0"
proof -
  let ?I = "\<lambda>z t. case t of (fobj, farr, xh, c) \<Rightarrow>
              length fobj = xl0 + 1 \<and> z \<le> xh \<and> xh \<le> length farr \<and> fobj ! 0 = fobj0 ! 0 \<and>
              c + z = cnt + xl0 \<and> mset (drop (z + 1) fobj) + mset (take xh farr) = mset farr0"
  let ?body = "\<lambda>xl s. case s of (fobj, farr, xh, cnt) \<Rightarrow>
          if xh = 0 then Inl DivByZero
          else
            let x = rnd cnt mod xh in
            if inb fobj [xl] \<and> inb farr [x, xh - 1] then
              Inr (fobj[xl := farr ! x], farr[x := farr ! (xh - 1)], xh - 1, Suc cnt)
            else Inl OutOfBounds"
  have "\<exists>t. for_down xl0 ?body (fobj0, farr0, length farr0, cnt) = Inr t \<and> ?I 0 t"
  proof (rule for_down_rule [where I = ?I])
    show "?I xl0 (fobj0, farr0, length farr0, cnt)" using x0 l0 by simp
  next
    fix z and t :: "nat list \<times> nat list \<times> nat \<times> nat"
    assume z: "0 < z" "z \<le> xl0" and I: "?I z t"
    obtain fobj farr xh c where t: "t = (fobj, farr, xh, c)" by (cases t) auto
    from I t have lf: "length fobj = xl0 + 1" and zx: "z \<le> xh" and xl: "xh \<le> length farr"
      and f0: "fobj ! 0 = fobj0 ! 0" and c: "c + z = cnt + xl0"
      and m: "mset (drop (z + 1) fobj) + mset (take xh farr) = mset farr0"
      by simp_all
    define x where "x = rnd c mod xh"
    have xh: "0 < xh" using z zx by simp
    have x: "x < xh" unfolding x_def using xh by simp
    have g: "inb fobj [z] \<and> inb farr [x, xh - 1]" using z lf x xl xh by (simp add: inb_def)
    have r: "?body z t = Inr (fobj[z := farr ! x], farr[x := farr ! (xh - 1)], xh - 1, Suc c)"
      unfolding t prod.case Let_def x_def [symmetric] using xh g by simp
    have d: "drop z (fobj[z := farr ! x]) = farr ! x # drop (z + 1) fobj"
    proof -
      have zl: "z < length fobj" using z lf by simp
      from Cons_nth_drop_Suc [of z "fobj[z := farr ! x]"] zl show ?thesis by simp
    qed
    have a1: "z - 1 \<le> xh - 1" "xh - 1 \<le> length (farr[x := farr ! (xh - 1)])"
      "Suc c + (z - 1) = cnt + xl0" "length (fobj[z := farr ! x]) = xl0 + 1"
      using zx xl c z lf by auto
    have a2: "mset (drop (z - 1 + 1) (fobj[z := farr ! x]))
            + mset (take (xh - 1) (farr[x := farr ! (xh - 1)])) = mset farr0"
    proof -
      have e1: "z - 1 + 1 = z" using z by simp
      have "mset (farr ! x # drop (z + 1) fobj) + mset (take (xh - 1) (farr[x := farr ! (xh - 1)]))
              = mset (drop (z + 1) fobj)
                + add_mset (farr ! x) (mset (take (xh - 1) (farr[x := farr ! (xh - 1)])))"
        by simp
      also have "\<dots> = mset (drop (z + 1) fobj) + mset (take xh farr)"
        unfolding swap_remove_mset [OF x xl] ..
      also have "\<dots> = mset farr0" by (rule m)
      finally show ?thesis unfolding e1 d .
    qed
    have a3: "fobj[z := farr ! x] ! 0 = fobj0 ! 0" using z f0 by simp
    have "?I (z - 1) (fobj[z := farr ! x], farr[x := farr ! (xh - 1)], xh - 1, Suc c)"
      unfolding prod.case by (intro conjI a1 a2 a3)
    then show "\<exists>t'. ?body z t = Inr t' \<and> ?I (z - 1) t'" unfolding r by blast
  qed
  then obtain t where r: "for_down xl0 ?body (fobj0, farr0, length farr0, cnt) = Inr t" and I: "?I 0 t"
    by blast
  obtain fobj farr xh c where t: "t = (fobj, farr, xh, c)" by (cases t) auto
  show ?thesis unfolding pick_spots_def r t using I t by auto
qed

text \<open>Lines 720-739: the number and the vertices that \<open>fobj\<close> holds.\<close>

lemma select_spots_eq:
  assumes b: "\<forall>x\<in>set (center_indices (unat (m_ndim m))). x < length (m_vect m)"
  shows "\<exists>fobj. select_spots m inum rnd cnt
             = Inr (fobj, cnt + min (length (candidates (unat (m_ndim m)) (m_wlvl m) (m_vect m))) (unat inum)) \<and>
           length fobj = min (length (candidates (unat (m_ndim m)) (m_wlvl m) (m_vect m))) (unat inum) + 1 \<and>
           fobj ! 0 = min (length (candidates (unat (m_ndim m)) (m_wlvl m) (m_vect m))) (unat inum) \<and>
           distinct (tl fobj) \<and>
           set (tl fobj) \<subseteq> set (candidates (unat (m_ndim m)) (m_wlvl m) (m_vect m))"
proof -
  define C where "C = candidates (unat (m_ndim m)) (m_wlvl m) (m_vect m)"
  define k where "k = min (length C) (unat inum)"
  have k: "(if length C < unat inum then length C else unat inum) = k" unfolding k_def by simp
  define fobj0 where "fobj0 = (replicate (1 + k) (0::nat))[0 := k]"
  have l0: "length fobj0 = k + 1" and f0: "fobj0 ! 0 = k" unfolding fobj0_def by simp_all
  have kl: "k \<le> length (rev C)" unfolding k_def by simp
  from pick_spots_inv [OF kl l0, of rnd cnt]
  obtain fobj farr xh where p: "pick_spots rnd k (fobj0, rev C, length C, cnt) = Inr (fobj, farr, xh, cnt + k)"
    and lf: "length fobj = k + 1" and ff: "fobj ! 0 = k"
    and ms: "mset (drop 1 fobj) + mset (take xh farr) = mset (rev C)"
    unfolding f0 by auto
  have e: "mset (tl fobj @ take xh farr) = mset C" using ms by (simp add: drop_Suc)
  have "distinct C" unfolding C_def by (rule distinct_candidates)
  then have "distinct (tl fobj @ take xh farr)" using mset_eq_imp_distinct_iff [OF e] by simp
  then have d: "distinct (tl fobj)" by simp
  have "set (tl fobj @ take xh farr) = set C" by (rule mset_eq_setD [OF e])
  then have sub: "set (tl fobj) \<subseteq> set C" by auto
  have fs: "fill_spots (unat (m_ndim m)) (m_wlvl m) (m_vect m) (replicate (length C) 0) (length C)
              = Inr (rev C, 0)"
    using fill_spots_eq [OF b, of "m_wlvl m"] unfolding C_def .
  have "select_spots m inum rnd cnt = Inr (fobj, cnt + k)"
    unfolding select_spots_def Let_def count_spots_eq [OF b] C_def [symmetric] bindf_def sum.case k
      fs fst_conv fobj0_def [symmetric] p prod.case ..
  with lf ff d sub show ?thesis unfolding C_def [symmetric] k_def [symmetric] by blast
qed

text \<open>\<^verbatim>\<open>MakeVBO(3 * 5 * fobj[0])\<close> is \<^verbatim>\<open>NULL\<close> only when no vertex was chosen.\<close>

lemma fifteen_nonzero:
  assumes "0 < k" "k \<le> unat (inum :: 32 word)"
  shows "3 * 5 * (word_of_nat k :: 32 word) \<noteq> 0"
proof
  assume z: "3 * 5 * (word_of_nat k :: 32 word) = 0"
  have "(3 * 5 * word_of_nat k :: 32 word) = word_of_nat (15 * k)" by simp
  with z have "(2::nat) ^ 32 dvd 15 * k" by (simp add: word_of_nat_eq_0_iff del: of_nat_mult)
  moreover have "coprime ((2::nat) ^ 32) 15"
    unfolding coprime_power_left_iff coprime_left_2_iff_odd by simp
  ultimately have "(2::nat) ^ 32 dvd k" by (simp add: coprime_dvd_mult_right_iff)
  then have "(2::nat) ^ 32 \<le> k" using assms(1) by (rule dvd_imp_le)
  moreover have "unat inum < 2 ^ 32" using unsigned_less [of inum] by simp
  ultimately show False using assms(2) by simp
qed

text \<open>\<^verbatim>\<open>ObjectVBO\<close> returns \<^verbatim>\<open>NULL\<close> exactly at the guard of line 718.\<close>

lemma ObjectVBO_null_iff:
  "ObjectVBO vobj inum rnd cnt = Inr (None, c) \<longleftrightarrow> (vobj = None \<or> inum = 0) \<and> c = cnt"
  by (auto simp: ObjectVBO_def bindf_def split: option.splits sum.splits prod.splits if_splits)

lemma ObjectVBO_selects:
  assumes b: "\<forall>x\<in>set (center_indices (unat (m_ndim m))). x < length (m_vect m)"
    and i: "inum \<noteq> 0"
    and c: "candidates (unat (m_ndim m)) (m_wlvl m) (m_vect m) \<noteq> []"
  shows "\<exists>p cnt'. ObjectVBO (Some m) inum rnd cnt = Inr (Some p, cnt') \<and>
           p_fobj p ! 0 = min (length (candidates (unat (m_ndim m)) (m_wlvl m) (m_vect m))) (unat inum) \<and>
           length (tl (p_fobj p)) = min (length (candidates (unat (m_ndim m)) (m_wlvl m) (m_vect m))) (unat inum) \<and>
           distinct (tl (p_fobj p)) \<and>
           set (tl (p_fobj p)) \<subseteq> set (candidates (unat (m_ndim m)) (m_wlvl m) (m_vect m))"
proof -
  define C where "C = candidates (unat (m_ndim m)) (m_wlvl m) (m_vect m)"
  define k where "k = min (length C) (unat inum)"
  from select_spots_eq [OF b, of inum rnd cnt]
  obtain fobj where s: "select_spots m inum rnd cnt = Inr (fobj, cnt + k)"
    and lf: "length fobj = k + 1" and f0: "fobj ! 0 = k" and d: "distinct (tl fobj)"
    and ss: "set (tl fobj) \<subseteq> set C"
    unfolding C_def [symmetric] k_def [symmetric] by blast
  have "0 < unat inum" using i by (simp add: unat_gt_0)
  moreover have "0 < length C" using c unfolding C_def by simp
  ultimately have k0: "0 < k" and ki: "k \<le> unat inum" unfolding k_def by simp_all
  from fifteen_nonzero [OF k0 ki]
  obtain retn where mk: "MakeVBO (3 * 5 * word_of_nat k) = Some retn"
    unfolding MakeVBO_def by (simp del: of_nat_mult)
  have n0: "unat (m_ndim m) \<noteq> 0"
  proof
    assume "unat (m_ndim m) = 0"
    then have "candidates (unat (m_ndim m)) (m_wlvl m) (m_vect m) = []"
      by (simp add: candidates_def center_indices_def)
    with c show False by simp
  qed
  have n0r: "real (unat (m_ndim m)) \<noteq> 0" using n0 unfolding of_nat_eq_0_iff .
  have "ObjectVBO (Some m) inum rnd cnt
          = Inr (Some \<lparr>p_flgs = USE_ARBV, p_ndot = m_ndot retn,
                       p_npol = 3 * 3 * 4 * word_of_nat (fobj ! 0),
                       p_grid = m_grid m / real (unat (m_ndim m)), p_fobj = fobj\<rparr>,
                 cnt + k + MakeFacetTex_calls 64)"
    unfolding ObjectVBO_def option.case if_not_P [OF i] s bindf_def sum.case prod.case f0 mk
      if_not_P [OF n0r] ..
  then show ?thesis unfolding C_def [symmetric] k_def [symmetric] using lf f0 d ss by simp
qed

text \<open>
  With no centre vertex above the water \<open>fobj[0]\<close> is \<open>0\<close>, \<^verbatim>\<open>MakeVBO(0)\<close> is \<^verbatim>\<open>NULL\<close> and
  line 744 writes \<^verbatim>\<open>retn->ntex\<close>.
\<close>

lemma ObjectVBO_empty:
  assumes b: "\<forall>x\<in>set (center_indices (unat (m_ndim m))). x < length (m_vect m)"
    and i: "inum \<noteq> 0"
    and c: "candidates (unat (m_ndim m)) (m_wlvl m) (m_vect m) = []"
  shows "ObjectVBO (Some m) inum rnd cnt = Inl NullDeref"
proof -
  from select_spots_eq [OF b, of inum rnd cnt]
  obtain fobj where s: "select_spots m inum rnd cnt = Inr (fobj, cnt)" and f0: "fobj ! 0 = 0"
    unfolding c by auto
  have mk: "MakeVBO (3 * 5 * word_of_nat 0) = None" by (simp add: MakeVBO_def)
  show ?thesis
    unfolding ObjectVBO_def option.case if_not_P [OF i] s bindf_def sum.case prod.case f0 mk ..
qed

text \<open>
  Claim C8, as the code has it. \<open>vobj\<close> is a mesh whose centre vertices lie inside its
  array \<open>vect\<close>, and \<open>inum\<close> is not \<open>0\<close>. When some centre vertex is above the water,
  \<^verbatim>\<open>ObjectVBO\<close> returns a mesh of \<open>min(inum, candidateCount)\<close> objects, on that many
  different candidates. When none is, the claim has it choose \<open>min(inum, 0) = 0\<close> anchors;
  the code chooses none and then writes through the \<^verbatim>\<open>NULL\<close> that \<^verbatim>\<open>MakeVBO(0)\<close> returned
  (line 744).
\<close>

theorem ObjectVBO_placement:
  assumes b: "\<forall>x\<in>set (center_indices (unat (m_ndim m))). x < length (m_vect m)"
    and i: "inum \<noteq> 0"
  shows "if candidates (unat (m_ndim m)) (m_wlvl m) (m_vect m) = []
         then ObjectVBO (Some m) inum rnd cnt = Inl NullDeref
         else (\<exists>p cnt'. ObjectVBO (Some m) inum rnd cnt = Inr (Some p, cnt') \<and>
                 p_fobj p ! 0 = min (length (candidates (unat (m_ndim m)) (m_wlvl m) (m_vect m))) (unat inum) \<and>
                 length (tl (p_fobj p))
                   = min (length (candidates (unat (m_ndim m)) (m_wlvl m) (m_vect m))) (unat inum) \<and>
                 distinct (tl (p_fobj p)) \<and>
                 set (tl (p_fobj p)) \<subseteq> set (candidates (unat (m_ndim m)) (m_wlvl m) (m_vect m)))"
proof (cases "candidates (unat (m_ndim m)) (m_wlvl m) (m_vect m) = []")
  case True
  then show ?thesis using ObjectVBO_empty [OF b i True, of rnd cnt] by simp
next
  case False
  then show ?thesis using ObjectVBO_selects [OF b i False, of rnd cnt] by simp
qed

text \<open>
  Two meshes of the size 2, whose centre vertices are 3, 4, 9 and 10: one with every
  vertex at the level of the water, one with every vertex above it.
\<close>

lemma center_indices_2: "center_indices 2 = [3, 4, 9, 10]"
  by (simp add: center_indices_def center_row_def upt_rec)

theorem ObjectVBO_placement_witness:
  "ObjectVBO (Some \<lparr>m_next = None, m_flgs = 63, m_ndim = 2, m_ndot = 18, m_npol = 48, m_seed = 1,
                     m_grid = 32, m_wlvl = 0, m_indx = [],
                     m_vect = replicate 18 \<lparr>v_x = 0, v_y = 0, v_z = 0\<rparr>,
                     m_clrs = replicate 18 0\<rparr>) 50 (\<lambda>i. 0) 0 = Inl NullDeref \<and>
   (\<exists>p cnt'. ObjectVBO (Some \<lparr>m_next = None, m_flgs = 63, m_ndim = 2, m_ndot = 18, m_npol = 48,
                     m_seed = 1, m_grid = 32, m_wlvl = 0, m_indx = [],
                     m_vect = replicate 18 \<lparr>v_x = 0, v_y = 0, v_z = 1\<rparr>,
                     m_clrs = replicate 18 0\<rparr>) 2 (\<lambda>i. 0) 0 = Inr (Some p, cnt') \<and>
      p_fobj p ! 0 = 2 \<and> length (tl (p_fobj p)) = 2 \<and> distinct (tl (p_fobj p)) \<and>
      set (tl (p_fobj p)) \<subseteq> {3, 4, 9, 10})"
proof -
  let ?m0 = "\<lparr>m_next = None, m_flgs = 63, m_ndim = 2, m_ndot = 18, m_npol = 48, m_seed = 1,
                     m_grid = 32, m_wlvl = 0, m_indx = [],
                     m_vect = replicate 18 \<lparr>v_x = 0, v_y = 0, v_z = 0\<rparr>,
                     m_clrs = replicate 18 0\<rparr>"
  let ?m1 = "\<lparr>m_next = None, m_flgs = 63, m_ndim = 2, m_ndot = 18, m_npol = 48, m_seed = 1,
                     m_grid = 32, m_wlvl = 0, m_indx = [],
                     m_vect = replicate 18 \<lparr>v_x = 0, v_y = 0, v_z = 1\<rparr>,
                     m_clrs = replicate 18 0\<rparr>"
  have b0: "\<forall>x\<in>set (center_indices (unat (m_ndim ?m0))). x < length (m_vect ?m0)"
    by (simp add: center_indices_2)
  have b1: "\<forall>x\<in>set (center_indices (unat (m_ndim ?m1))). x < length (m_vect ?m1)"
    by (simp add: center_indices_2)
  have c0: "candidates (unat (m_ndim ?m0)) (m_wlvl ?m0) (m_vect ?m0) = []"
    by (simp add: candidates_def center_indices_2)
  have c1: "candidates (unat (m_ndim ?m1)) (m_wlvl ?m1) (m_vect ?m1) = [3, 4, 9, 10]"
    by (simp add: candidates_def center_indices_2)
  have i0: "(50 :: 32 word) \<noteq> 0" and i1: "(2 :: 32 word) \<noteq> 0" by simp_all
  have mn: "min (length [3, 4, 9, 10 :: nat]) (unat (2 :: 32 word)) = 2" by simp
  have ne: "[3, 4, 9, 10] \<noteq> ([] :: nat list)" by simp
  from ObjectVBO_placement [OF b0 i0, of "\<lambda>i. 0" 0]
  have "ObjectVBO (Some ?m0) 50 (\<lambda>i. 0) 0 = Inl NullDeref" unfolding c0 by simp
  moreover from ObjectVBO_placement [OF b1 i1, of "\<lambda>i. 0" 0]
  have "\<exists>p cnt'. ObjectVBO (Some ?m1) 2 (\<lambda>i. 0) 0 = Inr (Some p, cnt') \<and>
      p_fobj p ! 0 = 2 \<and> length (tl (p_fobj p)) = 2 \<and> distinct (tl (p_fobj p)) \<and>
      set (tl (p_fobj p)) \<subseteq> {3, 4, 9, 10}"
    unfolding c1 mn if_not_P [OF ne] by simp
  ultimately show ?thesis by blast
qed

section \<open>A landscape under water\<close>

text \<open>What a loop that returned has kept: an invariant that every iteration that returns keeps.\<close>

lemma for_stride_partial:
  assumes r: "for_stride i n 1 body s = Inr t" and init: "I i s" and le: "i \<le> n"
    and step: "\<And>j u u'. j < n \<Longrightarrow> I j u \<Longrightarrow> body j u = Inr u' \<Longrightarrow> I (j + 1) u'"
  shows "I n t"
  using r init le
proof (induction "n - i" arbitrary: i s)
  case 0
  then have "i = n" by simp
  with "0.prems" show ?case by (subst (asm) for_stride.simps) simp
next
  case (Suc d)
  then have i: "i < n" by simp
  from Suc.prems(1) obtain s' where b: "body i s = Inr s'"
    and r': "for_stride (i + 1) n 1 body s' = Inr t"
    by (subst (asm) for_stride.simps) (use i in \<open>auto split: sum.splits\<close>)
  have "d = n - (i + 1)" using Suc.hyps(2) by simp
  from Suc.hyps(1) [OF this r' step [OF i Suc.prems(2) b]] i show ?case by simp
qed

text \<open>
  Lines 921-932: when the pass returns, the height of every centre vertex is the mean of
  the heights of the four corners of its cell.
\<close>

lemma center_heights_mean:
  fixes vect1 vect :: "FVEC list"
  assumes r: "center_heights N grid vect1 = Inr vect" and y: "y < N" and x: "x < N"
  shows "v_z (vect ! (center_row N y + x))
           = 0.25 * (v_z (vect ! (push_bit 1 (y * (N + 1)) + x))
                   + v_z (vect ! (push_bit 1 (y * (N + 1)) + (x + 1)))
                   + v_z (vect ! (push_bit 1 ((y + 1) * (N + 1)) + x))
                   + v_z (vect ! (push_bit 1 ((y + 1) * (N + 1)) + (x + 1))))"
proof -
  define S where "S = 2 * (N + 1)"
  have pb: "\<And>y. push_bit 1 (y * (N + 1)) = y * S" by (simp add: S_def push_bit_eq_mult)
  define mean where "mean u r c = 0.25 * (v_z (u ! (r * S + c)) + v_z (u ! (r * S + (c + 1)))
      + v_z (u ! ((r + 1) * S + c)) + v_z (u ! ((r + 1) * S + (c + 1))))" for u :: "FVEC list" and r c
  let ?Q = "\<lambda>k j u. (\<forall>r\<le>N. \<forall>c\<le>N. u ! (r * S + c) = vect1 ! (r * S + c)) \<and>
              (\<forall>r<k. \<forall>c<N. v_z (u ! (r * S + (N + 1) + c)) = mean vect1 r c) \<and>
              (\<forall>c<j. v_z (u ! (k * S + (N + 1) + c)) = mean vect1 k c)"
  let ?body = "\<lambda>k x t. case t of (vect, dpos) \<Rightarrow>
                if N + 1 \<le> dpos \<and> inb vect [dpos, dpos + N + 2] then
                  Inr (vect[dpos := \<lparr>v_x = grid * (real x + 0.5) - 0.5 * grid * real N,
                                      v_y = grid * (real k + 0.5) - 0.5 * grid * real N,
                                      v_z = 0.25 * (v_z (vect ! (dpos - N - 1))
                                                  + v_z (vect ! (dpos - N - 0))
                                                  + v_z (vect ! (dpos + N + 1))
                                                  + v_z (vect ! (dpos + N + 2)))\<rparr>],
                       dpos + 1)
                else Inl OutOfBounds"
  have r': "for_stride 0 N 1
              (\<lambda>k u. bindf (for_stride 0 N 1 (?body k) (u, (N + 1) + k * S)) (\<lambda>t. Inr (fst t))) vect1
            = Inr vect"
    using r unfolding center_heights_def pb .
  have Q: "?Q N 0 vect"
  proof (rule for_stride_partial [OF r', where I = "\<lambda>k. ?Q k 0"])
    show "?Q 0 0 vect1" by simp
    show "0 \<le> N" by simp
  next
    fix k and u u' :: "FVEC list"
    assume k: "k < N" and Qk: "?Q k 0 u"
      and b: "bindf (for_stride 0 N 1 (?body k) (u, (N + 1) + k * S)) (\<lambda>t. Inr (fst t)) = Inr u'"
    from b obtain t where rt: "for_stride 0 N 1 (?body k) (u, (N + 1) + k * S) = Inr t"
      and u': "u' = fst t"
      unfolding bindf_def by (auto split: sum.splits)
    have "snd t = (N + 1) + k * S + N \<and> ?Q k N (fst t)"
    proof (rule for_stride_partial [OF rt, where I = "\<lambda>j t. snd t = (N + 1) + k * S + j \<and> ?Q k j (fst t)"])
      show "snd (u, (N + 1) + k * S) = (N + 1) + k * S + 0 \<and> ?Q k 0 (fst (u, (N + 1) + k * S))"
        using Qk by simp
      show "0 \<le> N" by simp
    next
      fix j and s s' :: "FVEC list \<times> nat"
      assume j: "j < N" and I: "snd s = (N + 1) + k * S + j \<and> ?Q k j (fst s)"
        and bs: "?body k j s = Inr s'"
      obtain w d where s: "s = (w, d)" by (cases s)
      from I s have d: "d = (N + 1) + k * S + j" and Qw: "?Q k j w" by simp_all
      let ?nv = "\<lparr>v_x = grid * (real j + 0.5) - 0.5 * grid * real N,
                  v_y = grid * (real k + 0.5) - 0.5 * grid * real N,
                  v_z = 0.25 * (v_z (w ! (d - N - 1)) + v_z (w ! (d - N - 0))
                              + v_z (w ! (d + N + 1)) + v_z (w ! (d + N + 2)))\<rparr>"
      from bs have g: "inb w [d, d + N + 2]" and s': "s' = (w[d := ?nv], d + 1)"
        unfolding s prod.case by (auto split: if_splits)
      have dl: "d < length w" using g by (simp add: inb_def)
      have i1: "d - N - 1 = k * S + j" using d by simp
      have i2: "d - N - 0 = k * S + (j + 1)" using d by simp
      have i3: "d + N + 1 = (k + 1) * S + j" using d by (simp add: S_def)
      have i4: "d + N + 2 = (k + 1) * S + (j + 1)" using d by (simp add: S_def)
      have dS: "d = k * S + (N + 1 + j)" using d by simp
      have C: "w ! (r * S + c) = vect1 ! (r * S + c)" if "r \<le> N" "c \<le> N" for r c
        using Qw that by blast
      have nv: "v_z ?nv = mean vect1 k j"
        unfolding mean_def i1 i2 i3 i4 select_convs
        using C [of k j] C [of k "j + 1"] C [of "k + 1" j] C [of "k + 1" "j + 1"] j k by simp
      have o1: "w[d := ?nv] ! (r * S + c) = w ! (r * S + c)" if "c \<le> N" for r c
      proof -
        have "r * S + c \<noteq> k * S + (N + 1 + j)"
          using idx_eq_iff' [of c S "N + 1 + j" r k] that j by (auto simp: S_def)
        then show ?thesis unfolding dS by simp
      qed
      have o2: "w[d := ?nv] ! (r * S + (N + 1) + c) = w ! (r * S + (N + 1) + c)"
        if "c < N" "r \<noteq> k \<or> c \<noteq> j" for r c
      proof -
        have e: "r * S + (N + 1) + c = r * S + (N + 1 + c)" by simp
        have "r * S + (N + 1 + c) \<noteq> k * S + (N + 1 + j)"
          using idx_eq_iff' [of "N + 1 + c" S "N + 1 + j" r k] that j by (auto simp: S_def)
        then show ?thesis unfolding dS e by simp
      qed
      have P1: "v_z (w ! (r * S + (N + 1) + c)) = mean vect1 r c" if "r < k" "c < N" for r c
        using Qw that by blast
      have P2: "v_z (w ! (k * S + (N + 1) + c)) = mean vect1 k c" if "c < j" for c
        using Qw that by blast
      have "?Q k (j + 1) (w[d := ?nv])"
      proof (intro conjI allI impI)
        fix r c assume rc: "r \<le> N" "c \<le> N"
        show "w[d := ?nv] ! (r * S + c) = vect1 ! (r * S + c)"
          unfolding o1 [OF rc(2)] by (rule C [OF rc])
      next
        fix r c assume rc: "r < k" "c < N"
        have "r \<noteq> k \<or> c \<noteq> j" using rc by simp
        from o2 [OF rc(2) this] show "v_z (w[d := ?nv] ! (r * S + (N + 1) + c)) = mean vect1 r c"
          using P1 [OF rc] by (simp only:)
      next
        fix c assume c: "c < j + 1"
        show "v_z (w[d := ?nv] ! (k * S + (N + 1) + c)) = mean vect1 k c"
        proof (cases "c = j")
          case True
          have e': "k * S + (N + 1) + j = d" using d by simp
          have "w[d := ?nv] ! d = ?nv" using dl by simp
          then show ?thesis unfolding True e' using nv by (simp only:)
        next
          case False
          then have cj: "c < j" using c by simp
          then have cN: "c < N" using j by simp
          have "k \<noteq> k \<or> c \<noteq> j" using False by simp
          from o2 [OF cN this] show ?thesis using P2 [OF cj] by (simp only:)
        qed
      qed
      then show "snd s' = (N + 1) + k * S + (j + 1) \<and> ?Q k (j + 1) (fst s')"
        unfolding s' using d by simp
    qed
    then have Qt: "?Q k N (fst t)" by blast
    show "?Q (k + 1) 0 u'" unfolding u'
    proof (intro conjI allI impI)
      show "\<And>r c. r \<le> N \<Longrightarrow> c \<le> N \<Longrightarrow> fst t ! (r * S + c) = vect1 ! (r * S + c)" using Qt by blast
      show "\<And>c. c < 0 \<Longrightarrow> v_z (fst t ! ((k + 1) * S + (N + 1) + c)) = mean vect1 (k + 1) c" by simp
    next
      fix r c assume rc: "r < k + 1" "c < N"
      show "v_z (fst t ! (r * S + (N + 1) + c)) = mean vect1 r c"
      proof (cases "r = k")
        case True then show ?thesis using Qt rc by blast
      next
        case False then have "r < k" using rc by simp
        then show ?thesis using Qt rc by blast
      qed
    qed
  qed
  have C: "vect ! (r * S + c) = vect1 ! (r * S + c)" if "r \<le> N" "c \<le> N" for r c
    using Q that by blast
  have "v_z (vect ! (y * S + (N + 1) + x)) = mean vect1 y x" using Q y x by blast
  also have "\<dots> = mean vect y x"
    unfolding mean_def using C [of y x] C [of y "x + 1"] C [of "y + 1" x] C [of "y + 1" "x + 1"] x y
    by simp
  finally have "v_z (vect ! (y * S + (N + 1) + x)) = mean vect y x" .
  moreover have "center_row N y + x = y * S + (N + 1) + x" unfolding center_row_def pb by simp
  ultimately show ?thesis unfolding pb mean_def by simp
qed

text \<open>
  A call of \<^verbatim>\<open>ObjectVBO\<close> that returns has read every centre vertex inside the array and
  has found one above the water.
\<close>

lemma count_spots_bounds:
  assumes "count_spots N w v = Inr xh"
  shows "\<forall>x\<in>set (center_indices N). x < length v"
proof -
  have "\<forall>x\<in>set xs. x < length v"
    if "fold_fault (\<lambda>x xh. if inb v [x] then Inr (if v_z (v ! x) > w then xh + 1 else xh)
                            else Inl OutOfBounds) xs acc = Inr r"
    for xs and acc r :: nat
    using that by (induction xs arbitrary: acc) (auto simp: inb_def split: if_splits)
  with assms show ?thesis unfolding count_spots_def scan_center_indices by blast
qed

lemma ObjectVBO_Inr_spots:
  assumes r: "ObjectVBO (Some m) inum rnd cnt = Inr ob" and i: "inum \<noteq> 0"
  shows "candidates (unat (m_ndim m)) (m_wlvl m) (m_vect m) \<noteq> []"
proof
  assume c: "candidates (unat (m_ndim m)) (m_wlvl m) (m_vect m) = []"
  from r i obtain xh where "count_spots (unat (m_ndim m)) (m_wlvl m) (m_vect m) = Inr xh"
    unfolding ObjectVBO_def select_spots_def Let_def bindf_def
    by (auto split: sum.splits)
  from ObjectVBO_empty [OF count_spots_bounds [OF this] i c, of rnd cnt] r show False by simp
qed

lemma candidates_above:
  assumes "candidates N w v \<noteq> []"
  shows "\<exists>y<N. \<exists>x<N. v_z (v ! (center_row N y + x)) > w"
proof -
  from assms obtain i where i: "i \<in> set (center_indices N)" and z: "v_z (v ! i) > w"
    unfolding candidates_def by (auto simp: filter_empty_conv)
  from i obtain y where y: "y < N" "center_row N y \<le> i" "i < N + center_row N y"
    unfolding center_indices_def rows_mem by blast
  then have "i - center_row N y < N" "center_row N y + (i - center_row N y) = i" by simp_all
  with y(1) z show ?thesis by metis
qed

lemma LandscapeVBO_parts:
  assumes "LandscapeVBO ndim0 flgs seed grid fhei wlvl lscp arb rand_of junk past = Inr (Some m)"
  shows "\<exists>vect1 r c ob. center_heights (unat (m_ndim m)) grid vect1 = Inr (m_vect m) \<and>
           ObjectVBO (Some r) DEF_NOBJ (rand_of seed) c = Inr ob \<and>
           m_ndim r = m_ndim m \<and> m_wlvl r = m_wlvl m \<and> m_vect r = m_vect m"
  using assms
  by (fastforce simp: LandscapeVBO_def Let_def bindf_def
        split: option.splits sum.splits if_splits)

text \<open>
  Claim C6 is about a build in which every corner vertex is at the level of the water.
  \<^verbatim>\<open>LandscapeVBO\<close> returns no such build: in every mesh it returns, some corner vertex is
  off the level of the water. When every corner is at that level, so is every centre
  (lines 921-932); the colours are then the ones of the claim (\<open>water_build_colors\<close>), but
  \<^verbatim>\<open>ObjectVBO\<close> (line 1059) finds no spot, \<^verbatim>\<open>MakeVBO(0)\<close> is \<^verbatim>\<open>NULL\<close> and line 744 writes
  through it.
\<close>

theorem LandscapeVBO_not_all_water:
  assumes "LandscapeVBO ndim0 flgs seed grid fhei wlvl lscp arb rand_of junk past = Inr (Some m)"
  shows "\<exists>y\<le>unat (m_ndim m). \<exists>x\<le>unat (m_ndim m).
           v_z (m_vect m ! (push_bit 1 (y * (unat (m_ndim m) + 1)) + x)) \<noteq> m_wlvl m"
proof (rule ccontr)
  define N where "N = unat (m_ndim m)"
  assume "\<not> (\<exists>y\<le>unat (m_ndim m). \<exists>x\<le>unat (m_ndim m).
           v_z (m_vect m ! (push_bit 1 (y * (unat (m_ndim m) + 1)) + x)) \<noteq> m_wlvl m)"
  then have flat: "v_z (m_vect m ! (push_bit 1 (y * (N + 1)) + x)) = m_wlvl m" if "y \<le> N" "x \<le> N" for y x
    using that unfolding N_def by blast
  from LandscapeVBO_parts [OF assms] obtain vect1 r c ob
    where ch: "center_heights N grid vect1 = Inr (m_vect m)"
      and ob: "ObjectVBO (Some r) DEF_NOBJ (rand_of seed) c = Inr ob"
      and f: "m_ndim r = m_ndim m" "m_wlvl r = m_wlvl m" "m_vect r = m_vect m"
    unfolding N_def by blast
  have "DEF_NOBJ \<noteq> 0" by (simp add: DEF_NOBJ_def)
  from ObjectVBO_Inr_spots [OF ob this] have "candidates N (m_wlvl m) (m_vect m) \<noteq> []"
    unfolding f N_def .
  from candidates_above [OF this] obtain y x where yx: "y < N" "x < N"
    and z: "v_z (m_vect m ! (center_row N y + x)) > m_wlvl m"
    by blast
  have "v_z (m_vect m ! (center_row N y + x)) = 0.25 * (m_wlvl m + m_wlvl m + m_wlvl m + m_wlvl m)"
    unfolding center_heights_mean [OF ch yx]
    using flat [of y x] flat [of y "x + 1"] flat [of "y + 1" x] flat [of "y + 1" "x + 1"] yx
    by simp
  with z show False by simp
qed

text \<open>
  A build of the size 2 with the water above the range of the heights
  (\<open>wlvl = 400 > fhei / 2 = 300\<close>): every vertex is at the level of the water, and the call ends
  in the write through \<^verbatim>\<open>NULL\<close>.
\<close>

lemma LandscapeVBO_under_water:
  "LandscapeVBO 1 63 1 16 600 400
     (Some [\<lparr>h_fhei = 8, h_fclr = 0xFF30A15D\<rparr>, \<lparr>h_fhei = 0, h_fclr = 0x80AC630D\<rparr>])
     True (\<lambda>s i. 0) (\<lambda>i. 0) 0 = Inl NullDeref"
  by (simp add: eval_simps)

text \<open>The build of the size 2 with the water at \<open>-150\<close> is returned; it has a corner off the water.\<close>

theorem LandscapeVBO_not_all_water_witness:
  "\<exists>m. LandscapeVBO 1 63 1 16 600 (- 150)
       (Some [\<lparr>h_fhei = 8, h_fclr = 0xFF30A15D\<rparr>, \<lparr>h_fhei = 0, h_fclr = 0x80AC630D\<rparr>])
       True (\<lambda>s i. 0) (\<lambda>i. 0) 0 = Inr (Some m) \<and>
     (\<exists>y\<le>unat (m_ndim m). \<exists>x\<le>unat (m_ndim m).
        v_z (m_vect m ! (push_bit 1 (y * (unat (m_ndim m) + 1)) + x)) \<noteq> m_wlvl m)"
proof -
  from LandscapeVBO_example obtain m where m: "LandscapeVBO 1 63 1 16 600 (- 150)
       (Some [\<lparr>h_fhei = 8, h_fclr = 0xFF30A15D\<rparr>, \<lparr>h_fhei = 0, h_fclr = 0x80AC630D\<rparr>])
       True (\<lambda>s i. 0) (\<lambda>i. 0) 0 = Inr (Some m)"
    by (auto split: sum.splits option.splits)
  from LandscapeVBO_not_all_water [OF m] m show ?thesis by blast
qed

end
